theory Spec2Isabelle
  imports Main "HOL-Library.Sublist"
begin

section \<open>DynamicPriorityQueue: the data model\<close>

text \<open>
  The class of \<^verbatim>\<open>src/BLOG.md\<close> (lines 411 to 447) keeps three fields,
  \<^verbatim>\<open>concurrency\<close>, \<^verbatim>\<open>running\<close> and \<^verbatim>\<open>queue\<close>.  JavaScript runs every
  callback to completion, so the class is embedded as a state machine whose atomic steps
  are a call of \<^verbatim>\<open>add\<close>, a call of \<^verbatim>\<open>setLimit\<close>, and the resumption of one
  suspended \<^verbatim>\<open>process()\<close> invocation after the promise it awaits has settled.

  A task is a zero-argument function.  Calling it either throws at once, or returns
  something that \<^verbatim>\<open>await\<close> waits for; what the awaited promise finally does is the
  task's outcome, and the event loop decides when (if ever) that is delivered.  A plain
  value is awaited like a promise fulfilled with it.  Priorities and limits are integers
  (small enough to be exact as JavaScript numbers, so that the comparator's subtraction
  has the sign of the true difference).

  The body of a task may itself call \<^verbatim>\<open>add\<close> or \<^verbatim>\<open>setLimit\<close> of the queue.  When
  the task then returns, such a call finds the fields as they are at the end of the step
  that started the task, so it is the same call made as the next step.  A task that makes
  such a call and then throws is outside this embedding.
\<close>

datatype 'v outcome = Fulfil 'v | Fail 'v

datatype 'v task = Throws 'v | Returns "'v outcome"

datatype 'v promise = Pending | Resolved 'v | Rejected 'v

text \<open>
  A queue record is \<^verbatim>\<open>{ task, priority, resolve, reject }\<close>.  The two resolving
  functions belong to the promise that \<^verbatim>\<open>add\<close> returns; they are represented by the
  address \<open>hid\<close> of that promise in the store \<open>promises\<close>.
\<close>

record 'v entry =
  task :: "'v task"
  priority :: int
  hid :: nat

text \<open>
  Besides the three fields of the class the state holds what the JavaScript heap and the
  event loop hold: the store of the promises handed out by \<^verbatim>\<open>add\<close>, and the
  suspended \<^verbatim>\<open>process()\<close> invocations, each with the handle of its record and the
  outcome its awaited promise will have.  Three fields are history only:
  \<open>submitted\<close> (the task given to each \<^verbatim>\<open>add\<close>, by handle), \<open>started\<close> (the
  handles in the order in which \<^verbatim>\<open>task()\<close> was called) and \<open>settlements\<close>
  (every call of a \<^verbatim>\<open>resolve\<close> or \<^verbatim>\<open>reject\<close> function, in order).
  \<open>crashed\<close> records a \<^verbatim>\<open>shift()\<close> that returned \<^verbatim>\<open>undefined\<close>, whose
  destructuring raises a TypeError.
\<close>

record 'v state =
  concurrency :: int
  running :: int
  queue :: "'v entry list"
  promises :: "'v promise list"
  awaiting :: "(nat \<times> 'v outcome) list"
  submitted :: "'v task list"
  started :: "nat list"
  settlements :: "(nat \<times> 'v promise) list"
  crashed :: bool

definition init :: "int \<Rightarrow> 'v state" where
  "init c = \<lparr>concurrency = c, running = 0, queue = [], promises = [], awaiting = [],
             submitted = [], started = [], settlements = [], crashed = False\<rparr>"

section \<open>The operations\<close>

text \<open>\<^verbatim>\<open>Array.prototype.shift\<close>: the first element and the rest, nothing on an empty array.\<close>

definition shift :: "'a list \<Rightarrow> ('a \<times> 'a list) option" where
  "shift xs = (case xs of [] \<Rightarrow> None | x # rest \<Rightarrow> Some (x, rest))"

text \<open>
  A resolving function changes its promise only while the promise is pending; every call
  is logged.
\<close>

definition settle :: "nat \<Rightarrow> 'v promise \<Rightarrow> 'v state \<Rightarrow> 'v state" where
  "settle h r s =
     s\<lparr>promises := (if h < length (promises s) \<and> promises s ! h = Pending
                     then (promises s)[h := r] else promises s),
       settlements := settlements s @ [(h, r)]\<rparr>"

definition resolve :: "nat \<Rightarrow> 'v \<Rightarrow> 'v state \<Rightarrow> 'v state" where
  "resolve h v s = settle h (Resolved v) s"

definition reject :: "nat \<Rightarrow> 'v \<Rightarrow> 'v state \<Rightarrow> 'v state" where
  "reject h v s = settle h (Rejected v) s"

text \<open>
  The loop body up to the call \<^verbatim>\<open>task()\<close>: \<^verbatim>\<open>this.running++\<close>, the record taken off
  the queue, the task called.
\<close>

definition launch :: "'v entry \<Rightarrow> 'v entry list \<Rightarrow> 'v state \<Rightarrow> 'v state" where
  "launch e rest s =
     s\<lparr>running := running s + 1, queue := rest, started := started s @ [hid e]\<rparr>"

text \<open>\<^verbatim>\<open>await\<close> on what the task returned: the invocation is parked.\<close>

definition suspend :: "'v entry \<Rightarrow> 'v outcome \<Rightarrow> 'v state \<Rightarrow> 'v state" where
  "suspend e out s = s\<lparr>awaiting := awaiting s @ [(hid e, out)]\<rparr>"

text \<open>The first statement of the \<^verbatim>\<open>finally\<close> block, \<^verbatim>\<open>this.running--\<close>.\<close>

definition release :: "'v state \<Rightarrow> 'v state" where
  "release s = s\<lparr>running := running s - 1\<rparr>"

text \<open>
  \<^verbatim>\<open>process\<close> is an async function: a call runs until its first \<^verbatim>\<open>await\<close> and
  returns to its caller there.  When the task throws synchronously no \<^verbatim>\<open>await\<close> is
  reached: the \<^verbatim>\<open>catch\<close> block rejects, the \<^verbatim>\<open>finally\<close> block decrements and
  calls \<^verbatim>\<open>this.process()\<close> (the inner call below), and the \<^verbatim>\<open>while\<close> loop goes
  round again (the outer call).
\<close>

function process :: "'v state \<Rightarrow> 'v state" where
  "process s =
     (if running s < concurrency s \<and> 0 < length (queue s) then
        (case shift (queue s) of
           None \<Rightarrow> s\<lparr>running := running s + 1, crashed := True\<rparr>
         | Some (e, rest) \<Rightarrow>
             (case task e of
                Throws err \<Rightarrow> process (process (release (reject (hid e) err (launch e rest s))))
              | Returns out \<Rightarrow> suspend e out (launch e rest s)))
      else s)"
  by pat_completeness auto

text \<open>
  \<^verbatim>\<open>add\<close>: the executor of the new promise runs synchronously.  It pushes the record,
  sorts the queue and calls \<^verbatim>\<open>process\<close>.  \<^verbatim>\<open>Array.prototype.sort\<close> is stable, and
  with the comparator \<^verbatim>\<open>(a, b) => b.priority - a.priority\<close> on integer priorities it
  orders by descending priority, which is the stable \<^const>\<open>sort_key\<close> on the negated
  priority.  The call returns the new promise.
\<close>

definition add :: "'v task \<Rightarrow> int \<Rightarrow> 'v state \<Rightarrow> nat \<times> 'v state" where
  "add t p s =
     (let h = length (promises s);
          s1 = s\<lparr>promises := promises s @ [Pending], submitted := submitted s @ [t]\<rparr>;
          s2 = s1\<lparr>queue := queue s1 @ [\<lparr>task = t, priority = p, hid = h\<rparr>]\<rparr>;
          s3 = s2\<lparr>queue := sort_key (\<lambda>e. - priority e) (queue s2)\<rparr>
      in (h, process s3))"

definition setLimit :: "int \<Rightarrow> 'v state \<Rightarrow> 'v state" where
  "setLimit newConcurrency s = process (s\<lparr>concurrency := newConcurrency\<rparr>)"

text \<open>
  The promise awaited by the invocation parked for handle \<open>h\<close> settles and the invocation
  goes on: \<^verbatim>\<open>resolve(result)\<close> or \<^verbatim>\<open>reject(error)\<close>, then the \<^verbatim>\<open>finally\<close>
  block (\<^verbatim>\<open>this.running--\<close> and a call of \<^verbatim>\<open>this.process()\<close>), then the
  \<^verbatim>\<open>while\<close> loop again.  Nothing happens for a handle that no invocation is parked on.
\<close>

definition resume :: "nat \<Rightarrow> 'v state \<Rightarrow> 'v state" where
  "resume h s =
     (case map_of (awaiting s) h of
        None \<Rightarrow> s
      | Some out \<Rightarrow>
          (let s1 = s\<lparr>awaiting := filter (\<lambda>a. fst a \<noteq> h) (awaiting s)\<rparr>;
               s2 = (case out of Fulfil v \<Rightarrow> resolve h v s1 | Fail err \<Rightarrow> reject h err s1)
           in process (process (release s2))))"

datatype 'v event = Add "'v task" int | SetLimit int | Complete nat

fun step :: "'v event \<Rightarrow> 'v state \<Rightarrow> 'v state" where
  "step (Add t p) s = snd (add t p s)"
| "step (SetLimit n) s = setLimit n s"
| "step (Complete h) s = resume h s"

text \<open>A run: the constructor, then any sequence of the three kinds of step.\<close>

fun exec :: "'v event list \<Rightarrow> 'v state \<Rightarrow> 'v state" where
  "exec [] s = s"
| "exec (e # es) s = exec es (step e s)"

text \<open>
  What a run has submitted: the arguments of its calls of \<^verbatim>\<open>add\<close>, in order.  The
  handle returned by the call number \<open>k\<close> (from 0) is \<open>k\<close>.
\<close>

fun submissions :: "'v event list \<Rightarrow> ('v task \<times> int) list" where
  "submissions [] = []"
| "submissions (Add t p # es) = (t, p) # submissions es"
| "submissions (SetLimit n # es) = submissions es"
| "submissions (Complete h # es) = submissions es"

text \<open>What the handle of a task has to become: the task's own value or its own failure.\<close>

fun verdict :: "'v task \<Rightarrow> 'v promise" where
  "verdict (Throws err) = Rejected err"
| "verdict (Returns (Fulfil v)) = Resolved v"
| "verdict (Returns (Fail err)) = Rejected err"

text \<open>
  The queue order: \<open>a\<close> goes before \<open>b\<close> when its priority is greater, or equal with
  \<open>a\<close> submitted earlier (handles are handed out in submission order).
\<close>

definition precedes :: "'v entry \<Rightarrow> 'v entry \<Rightarrow> bool" where
  "precedes a b \<longleftrightarrow> priority b < priority a \<or> (priority a = priority b \<and> hid a < hid b)"

section \<open>fetchWithTimeout and fetchWithTimeoutClean\<close>

text \<open>
  \<^verbatim>\<open>src/callbacks/easy/fetchWithTimeout.js\<close>.  Both functions start one timer and one
  fetch and return a promise.  What happens afterwards is decided by the order in which the
  event loop delivers the fetch's settlement and the timer; the two functions are embedded
  as the state each leaves behind and its reaction to those events.  A timer fires at most
  once and not after \<^verbatim>\<open>clearTimeout\<close>; \<^verbatim>\<open>fetch\<close> always returns a promise (it
  reports every error by rejecting it), and that promise settles at most once.  The
  callbacks that a settlement sets off run before the event loop delivers anything else,
  so one delivery is one atomic step.  JavaScript values are opaque, except that strings
  are among them.
\<close>

datatype 'a val = Str string | Other 'a

datatype 'a net_event = FetchFulfils "'a val" | FetchRejects "'a val" | TimerFires

text \<open>A resolving function applied to a promise: only a pending promise changes.\<close>

definition resolving :: "'v promise \<Rightarrow> 'v promise \<Rightarrow> 'v promise" where
  "resolving p r = (if p = Pending then r else p)"

record 'a timed_fetch =
  returned :: "'a val promise"
  timeoutId :: "nat option"
  request :: "string option"

definition fetchWithTimeout :: "string \<Rightarrow> nat \<Rightarrow> 'a timed_fetch" where
  "fetchWithTimeout url ms = \<lparr>returned = Pending, timeoutId = Some ms, request = Some url\<rparr>"

fun deliver :: "'a net_event \<Rightarrow> 'a timed_fetch \<Rightarrow> 'a timed_fetch" where
  "deliver TimerFires c =
     (case timeoutId c of
        None \<Rightarrow> c
      | Some ms \<Rightarrow> c\<lparr>returned := resolving (returned c) (Rejected (Str ''Request Timed Out'')),
                     timeoutId := None\<rparr>)"
| "deliver (FetchFulfils response) c =
     (case request c of
        None \<Rightarrow> c
      | Some url \<Rightarrow> c\<lparr>timeoutId := None,
                      returned := resolving (returned c) (Resolved response),
                      request := None\<rparr>)"
| "deliver (FetchRejects error) c =
     (case request c of
        None \<Rightarrow> c
      | Some url \<Rightarrow> c\<lparr>timeoutId := None,
                      returned := resolving (returned c) (Rejected error),
                      request := None\<rparr>)"

text \<open>
  The second function makes a promise of its own for the timer, never clears the timer,
  and returns \<^verbatim>\<open>Promise.race([fetch(url), timeoutPromise])\<close>, which settles as the
  first of the two that settles.
\<close>

record 'a raced_fetch =
  raced :: "'a val promise"
  timeoutPromise :: "'a val promise"
  timer :: "nat option"
  fetching :: "string option"

definition fetchWithTimeoutClean :: "string \<Rightarrow> nat \<Rightarrow> 'a raced_fetch" where
  "fetchWithTimeoutClean url ms =
     \<lparr>raced = Pending, timeoutPromise = Pending, timer = Some ms, fetching = Some url\<rparr>"

fun deliverClean :: "'a net_event \<Rightarrow> 'a raced_fetch \<Rightarrow> 'a raced_fetch" where
  "deliverClean TimerFires c =
     (case timer c of
        None \<Rightarrow> c
      | Some ms \<Rightarrow>
          c\<lparr>timeoutPromise := resolving (timeoutPromise c) (Rejected (Str ''Request Timed Out'')),
            raced := resolving (raced c) (Rejected (Str ''Request Timed Out'')),
            timer := None\<rparr>)"
| "deliverClean (FetchFulfils response) c =
     (case fetching c of
        None \<Rightarrow> c
      | Some url \<Rightarrow> c\<lparr>raced := resolving (raced c) (Resolved response), fetching := None\<rparr>)"
| "deliverClean (FetchRejects error) c =
     (case fetching c of
        None \<Rightarrow> c
      | Some url \<Rightarrow> c\<lparr>raced := resolving (raced c) (Rejected error), fetching := None\<rparr>)"

text \<open>The promise a caller holds after the event loop has delivered \<open>evs\<close>.\<close>

definition observe :: "'a net_event list \<Rightarrow> 'a timed_fetch \<Rightarrow> 'a val promise" where
  "observe evs c = returned (fold deliver evs c)"

definition observeClean :: "'a net_event list \<Rightarrow> 'a raced_fetch \<Rightarrow> 'a val promise" where
  "observeClean evs c = raced (fold deliverClean evs c)"

text \<open>
  What the caller finally sees depends on the world outside: when and how the fetch of a
  given URL settles (in milliseconds after the call, or never), and, should the fetch
  settle in the very millisecond in which a timer falls due, which of the two the event
  loop delivers first.  A timer set for \<open>ms\<close> falls due \<open>ms\<close> milliseconds after
  the call.  The deliveries that follow a call are read off the request and the timer
  that the call has started.
\<close>

record 'a world =
  respond :: "string \<Rightarrow> (nat \<times> 'a val outcome) option"
  fetch_first :: bool

definition settlement :: "'a val outcome \<Rightarrow> 'a net_event" where
  "settlement out = (case out of Fulfil response \<Rightarrow> FetchFulfils response
                                | Fail error \<Rightarrow> FetchRejects error)"

definition timeline :: "'a world \<Rightarrow> string option \<Rightarrow> nat option \<Rightarrow> 'a net_event list" where
  "timeline w req tm =
     (case (case req of None \<Rightarrow> None | Some url \<Rightarrow> respond w url) of
        None \<Rightarrow> (case tm of None \<Rightarrow> [] | Some ms \<Rightarrow> [TimerFires])
      | Some (t, out) \<Rightarrow>
          (case tm of
             None \<Rightarrow> [settlement out]
           | Some ms \<Rightarrow>
               if t < ms \<or> (t = ms \<and> fetch_first w)
               then [settlement out, TimerFires]
               else [TimerFires, settlement out]))"

definition final :: "'a world \<Rightarrow> 'a timed_fetch \<Rightarrow> 'a val promise" where
  "final w c = observe (timeline w (request c) (timeoutId c)) c"

definition finalClean :: "'a world \<Rightarrow> 'a raced_fetch \<Rightarrow> 'a val promise" where
  "finalClean w c = observeClean (timeline w (fetching c) (timer c)) c"

text \<open>
  The two states are kept in step by the event loop: the returned promises agree, the
  same fetch is pending in both, and as long as the returned promise is pending the two
  timers agree.
\<close>

definition in_step :: "'a timed_fetch \<Rightarrow> 'a raced_fetch \<Rightarrow> bool" where
  "in_step a b \<longleftrightarrow>
     returned a = raced b \<and> request a = fetching b \<and>
     (returned a = Pending \<longrightarrow> timeoutId a = timer b)"

section \<open>Invariants and auxiliary states\<close>

text \<open>
  Bookkeeping that every reachable state satisfies: the counter \<^verbatim>\<open>running\<close> is the
  number of parked invocations, no record was taken from an empty queue, the parked handles
  are started ones, no handle is both started and queued or occurs twice, and every
  handle in use has been allocated.
\<close>

definition consistent :: "'v state \<Rightarrow> bool" where
  "consistent s \<longleftrightarrow>
     running s = int (length (awaiting s)) \<and> \<not> crashed s \<and>
     distinct (map fst (awaiting s)) \<and> fst ` set (awaiting s) \<subseteq> set (started s) \<and>
     distinct (started s @ map hid (queue s)) \<and>
     (\<forall>h\<in>set (started s) \<union> hid ` set (queue s). h < length (promises s)) \<and>
     length (submitted s) = length (promises s)"

text \<open>
  The ledger of settlements: a queued or parked handle is pending and no resolving function
  of it has been called; every other allocated handle has had exactly one such call, with
  the verdict of its own task.
\<close>

definition accounted :: "'v state \<Rightarrow> bool" where
  "accounted s \<longleftrightarrow>
     (\<forall>e\<in>set (queue s). task e = submitted s ! hid e) \<and>
     (\<forall>a\<in>set (awaiting s). submitted s ! fst a = Returns (snd a)) \<and>
     (\<forall>x\<in>set (settlements s). fst x < length (promises s)) \<and>
     (\<forall>h<length (promises s).
        if h \<in> hid ` set (queue s) \<union> fst ` set (awaiting s)
        then promises s ! h = Pending \<and> filter (\<lambda>x. fst x = h) (settlements s) = []
        else promises s ! h = verdict (submitted s ! h) \<and>
             filter (\<lambda>x. fst x = h) (settlements s) = [(h, verdict (submitted s ! h))])"

text \<open>The part of \<^verbatim>\<open>add\<close> that precedes its call of \<^verbatim>\<open>process\<close>.\<close>

definition enqueue :: "'v task \<Rightarrow> int \<Rightarrow> 'v state \<Rightarrow> 'v state" where
  "enqueue t p s =
     s\<lparr>promises := promises s @ [Pending], submitted := submitted s @ [t],
       queue := sort_key (\<lambda>e. - priority e)
                  (queue s @ [\<lparr>task = t, priority = p, hid = length (promises s)\<rparr>])\<rparr>"

text \<open>The part of a resumption that precedes its two calls of \<^verbatim>\<open>process\<close>.\<close>

definition finish :: "nat \<Rightarrow> 'v outcome \<Rightarrow> 'v state \<Rightarrow> 'v state" where
  "finish h out s =
     release (settle h (verdict (Returns out)) (s\<lparr>awaiting := filter (\<lambda>a. fst a \<noteq> h) (awaiting s)\<rparr>))"

section \<open>Termination of process\<close>

lemma queue_settle [simp]: "queue (settle h r s) = queue s"
  by (simp add: settle_def)

lemma process_dom_queue_length:
  "process_dom s \<Longrightarrow> length (queue (process s)) \<le> length (queue s)"
proof (induct rule: process.pinduct)
  case (1 s)
  show ?case
  proof (cases "running s < concurrency s \<and> 0 < length (queue s)")
    case False
    with 1(1) show ?thesis by (auto simp: process.psimps)
  next
    case True
    then obtain e rest where q: "queue s = e # rest" by (cases "queue s") auto
    show ?thesis
    proof (cases "task e")
      case (Throws err)
      let ?s3 = "release (reject (hid e) err (launch e rest s))"
      have sh: "shift (queue s) = Some (e, rest)" by (simp add: shift_def q)
      have a: "length (queue (process ?s3)) \<le> length (queue ?s3)"
        using 1(2)[OF True sh refl Throws] .
      have b: "length (queue (process (process ?s3))) \<le> length (queue (process ?s3))"
        using 1(3)[OF True sh refl Throws] .
      have c: "length (queue ?s3) = length rest"
        by (simp add: release_def reject_def launch_def)
      have "process s = process (process ?s3)"
        using 1(1) True sh Throws by (simp add: process.psimps)
      with a b c q show ?thesis by simp
    next
      case (Returns out)
      with 1(1) True q show ?thesis
        by (simp add: process.psimps shift_def suspend_def launch_def)
    qed
  qed
qed

termination process
proof (relation "measure (\<lambda>s. length (queue s))")
  show "wf (measure (\<lambda>s. length (queue s)))" by simp
next
  fix s :: "'v state" and x2 and e :: "'v entry" and rest err
  assume "running s < concurrency s \<and> 0 < length (queue s)"
    and "shift (queue s) = Some x2" and "(e, rest) = x2" and "task e = Throws err"
  then show "(release (reject (hid e) err (launch e rest s)), s) \<in> measure (\<lambda>s. length (queue s))"
    by (auto simp: shift_def release_def reject_def launch_def split: list.splits)
next
  fix s :: "'v state" and x2 and e :: "'v entry" and rest err
  assume g: "running s < concurrency s \<and> 0 < length (queue s)"
    and sh: "shift (queue s) = Some x2" and x: "(e, rest) = x2" and "task e = Throws err"
    and d: "process_dom (release (reject (hid e) err (launch e rest s)))"
  have "length (queue (release (reject (hid e) err (launch e rest s)))) < length (queue s)"
    using sh x by (auto simp: shift_def release_def reject_def launch_def split: list.splits)
  with process_dom_queue_length[OF d]
  show "(process (release (reject (hid e) err (launch e rest s))), s) \<in> measure (\<lambda>s. length (queue s))"
    by simp
qed

section \<open>Unfolding process, and a rule for what it preserves\<close>

declare process.simps [simp del]

lemma shift_Cons [simp]: "shift (x # xs) = Some (x, xs)"
  by (simp add: shift_def)

lemma process_idle:
  "\<not> (running s < concurrency s \<and> queue s \<noteq> []) \<Longrightarrow> process s = s"
  by (subst process.simps) auto

lemma process_Throws:
  "running s < concurrency s \<Longrightarrow> queue s = e # rest \<Longrightarrow> task e = Throws err \<Longrightarrow>
   process s = process (process (release (reject (hid e) err (launch e rest s))))"
  by (subst process.simps) simp

lemma process_Returns:
  "running s < concurrency s \<Longrightarrow> queue s = e # rest \<Longrightarrow> task e = Returns out \<Longrightarrow>
   process s = suspend e out (launch e rest s)"
  by (subst process.simps) simp

lemma process_rule:
  assumes "P s"
    and thrown: "\<And>s e rest err. P s \<Longrightarrow> running s < concurrency s \<Longrightarrow> queue s = e # rest \<Longrightarrow>
            task e = Throws err \<Longrightarrow> P (release (reject (hid e) err (launch e rest s)))"
    and parked: "\<And>s e rest out. P s \<Longrightarrow> running s < concurrency s \<Longrightarrow> queue s = e # rest \<Longrightarrow>
            task e = Returns out \<Longrightarrow> P (suspend e out (launch e rest s))"
  shows "P (process s)"
  using assms(1)
proof (induction s rule: process.induct)
  case (1 s)
  show ?case
  proof (cases "running s < concurrency s \<and> queue s \<noteq> []")
    case False
    with 1(3) show ?thesis by (simp add: process_idle)
  next
    case True
    then obtain e rest where q: "queue s = e # rest" by (cases "queue s") auto
    from True have g: "running s < concurrency s \<and> 0 < length (queue s)" by simp
    have sh: "shift (queue s) = Some (e, rest)" by (simp add: q)
    show ?thesis
    proof (cases "task e")
      case (Throws err)
      let ?s3 = "release (reject (hid e) err (launch e rest s))"
      have "P ?s3" using thrown[OF 1(3) _ q Throws] True by simp
      then have "P (process ?s3)" by (rule 1(1)[OF g sh refl Throws])
      then have "P (process (process ?s3))" by (rule 1(2)[OF g sh refl Throws])
      then show ?thesis using True q Throws by (simp add: process_Throws)
    next
      case (Returns out)
      have "P (suspend e out (launch e rest s))" using parked[OF 1(3) _ q Returns] True by simp
      then show ?thesis using True q Returns by (simp add: process_Returns)
    qed
  qed
qed

lemma sort_key_snoc_sorted:
  "sorted (map f q) \<Longrightarrow>
   sort_key f (q @ [r]) = takeWhile (\<lambda>x. f x \<le> f r) q @ r # dropWhile (\<lambda>x. f x \<le> f r) q"
proof (induction q)
  case Nil
  show ?case by simp
next
  case (Cons a q)
  then have IH: "sort_key f (q @ [r]) = takeWhile (\<lambda>x. f x \<le> f r) q @ r # dropWhile (\<lambda>x. f x \<le> f r) q"
    and le: "\<forall>x\<in>set q. f a \<le> f x" by auto
  show ?case
  proof (cases "f a \<le> f r")
    case True
    have "\<forall>x\<in>set (takeWhile (\<lambda>x. f x \<le> f r) q @ r # dropWhile (\<lambda>x. f x \<le> f r) q). f a \<le> f x"
      using le True by (auto dest: set_takeWhileD set_dropWhileD)
    then show ?thesis using True IH by (simp add: insort_is_Cons)
  next
    case False
    then have "\<forall>x\<in>set q. \<not> f x \<le> f r" using le by auto
    then have tw: "takeWhile (\<lambda>x. f x \<le> f r) q = []" and dw: "dropWhile (\<lambda>x. f x \<le> f r) q = q"
      by (cases q; simp)+
    show ?thesis using False IH le by (simp add: tw dw insort_is_Cons)
  qed
qed

lemma dropWhile_sorted_fails:
  "sorted (map f q) \<Longrightarrow> b \<in> set (dropWhile (\<lambda>x. f x \<le> t) q) \<Longrightarrow> \<not> f b \<le> (t::'b::linorder)"
  by (induction q) (auto split: if_splits)

lemmas op_defs = release_def reject_def resolve_def settle_def launch_def suspend_def

lemma consistent_init: "consistent (init c)"
  by (simp add: consistent_def init_def)

lemma consistent_thrown:
  "consistent s \<Longrightarrow> queue s = e # rest \<Longrightarrow>
   consistent (release (reject (hid e) err (launch e rest s)))"
  by (auto simp: consistent_def op_defs)

lemma consistent_parked:
  "consistent s \<Longrightarrow> queue s = e # rest \<Longrightarrow> consistent (suspend e out (launch e rest s))"
  by (auto simp: consistent_def op_defs)

lemma consistent_process: "consistent s \<Longrightarrow> consistent (process s)"
  by (rule process_rule[where P = consistent]) (auto intro: consistent_thrown consistent_parked)

lemma add_enqueue: "add t p s = (length (promises s), process (enqueue t p s))"
  by (simp add: add_def enqueue_def Let_def)

lemma distinct_map_sort_key: "distinct (map g (sort_key f xs)) = distinct (map g xs)"
  by (simp add: distinct_map)

lemma consistent_enqueue:
  assumes "consistent s"
  shows "consistent (enqueue t p s)"
proof -
  have fresh: "length (promises s) \<notin> set (started s) \<union> hid ` set (queue s)"
    using assms unfolding consistent_def by (meson less_irrefl)
  have "distinct (started s @ map hid (queue s @ [\<lparr>task = t, priority = p, hid = length (promises s)\<rparr>]))"
    using assms fresh by (auto simp: consistent_def)
  then have "distinct (started (enqueue t p s) @ map hid (queue (enqueue t p s)))"
    by (simp add: enqueue_def distinct_map_sort_key)
  moreover have "\<forall>h\<in>set (started (enqueue t p s)) \<union> hid ` set (queue (enqueue t p s)).
                   h < length (promises (enqueue t p s))"
    using assms by (auto simp: consistent_def enqueue_def less_Suc_eq)
  ultimately show ?thesis
    using assms by (simp add: consistent_def) (simp add: enqueue_def)
qed

lemma consistent_limit: "consistent s \<Longrightarrow> consistent (s\<lparr>concurrency := n\<rparr>)"
  by (simp add: consistent_def)

lemma length_filter_parked:
  "distinct (map fst xs) \<Longrightarrow> map_of xs h = Some out \<Longrightarrow>
   Suc (length (filter (\<lambda>a. fst a \<noteq> h) xs)) = length xs"
proof (induction xs)
  case Nil
  then show ?case by simp
next
  case (Cons a xs)
  show ?case
  proof (cases "fst a = h")
    case True
    with Cons.prems have "h \<notin> fst ` set xs" by auto
    then have "filter (\<lambda>a. fst a \<noteq> h) xs = xs" by (auto simp: filter_id_conv)
    with True show ?thesis by simp
  next
    case False
    with Cons show ?thesis by (cases a) auto
  qed
qed

lemma resume_finish:
  "resume h s = (case map_of (awaiting s) h of None \<Rightarrow> s
                 | Some out \<Rightarrow> process (process (finish h out s)))"
  by (auto simp: resume_def finish_def Let_def resolve_def reject_def
           split: option.splits outcome.splits)

lemma consistent_finish:
  assumes "consistent s" "map_of (awaiting s) h = Some out"
  shows "consistent (finish h out s)"
proof -
  from assms have "Suc (length (filter (\<lambda>a. fst a \<noteq> h) (awaiting s))) = length (awaiting s)"
    by (intro length_filter_parked) (simp_all add: consistent_def)
  then have "int (length (awaiting s)) - 1 = int (length (filter (\<lambda>a. fst a \<noteq> h) (awaiting s)))"
    by linarith
  with assms(1) show ?thesis
    by (auto simp: consistent_def finish_def op_defs distinct_map_filter)
qed

lemma consistent_step: "consistent s \<Longrightarrow> consistent (step e s)"
proof (cases e)
  case (Add t p)
  assume "consistent s"
  then show ?thesis using Add
    by (simp add: add_enqueue consistent_process consistent_enqueue)
next
  case (SetLimit n)
  assume "consistent s"
  then show ?thesis using SetLimit
    by (simp add: setLimit_def consistent_process consistent_limit)
next
  case (Complete h)
  assume "consistent s"
  then show ?thesis using Complete
    by (auto simp: resume_finish consistent_process consistent_finish split: option.splits)
qed

lemma consistent_exec: "consistent s \<Longrightarrow> consistent (exec es s)"
  by (induction es arbitrary: s) (simp_all add: consistent_step)

lemma accounted_init: "accounted (init c)"
  by (simp add: accounted_def init_def)

lemma accounted_thrown:
  assumes "consistent s" "accounted s" "queue s = e # rest" "task e = Throws err"
  shows "accounted (release (reject (hid e) err (launch e rest s)))"
proof -
  let ?s' = "release (reject (hid e) err (launch e rest s))"
  have he: "hid e < length (promises s)" "hid e \<notin> hid ` set rest" "hid e \<notin> fst ` set (awaiting s)"
    using assms(1,3) by (auto simp: consistent_def)
  have pe: "promises s ! hid e = Pending" "filter (\<lambda>x. fst x = hid e) (settlements s) = []"
       "submitted s ! hid e = Throws err"
    using assms(2,3,4) he(1) by (auto simp: accounted_def)
  have f: "queue ?s' = rest" "awaiting ?s' = awaiting s" "submitted ?s' = submitted s"
       "promises ?s' = (promises s)[hid e := Rejected err]"
       "settlements ?s' = settlements s @ [(hid e, Rejected err)]"
    using he(1) pe(1) by (simp_all add: op_defs)
  have "\<forall>h<length (promises s).
        if h \<in> hid ` set rest \<union> fst ` set (awaiting s)
        then (promises s)[hid e := Rejected err] ! h = Pending \<and>
             filter (\<lambda>x. fst x = h) (settlements s @ [(hid e, Rejected err)]) = []
        else (promises s)[hid e := Rejected err] ! h = verdict (submitted s ! h) \<and>
             filter (\<lambda>x. fst x = h) (settlements s @ [(hid e, Rejected err)]) =
               [(h, verdict (submitted s ! h))]"
  proof (intro allI impI)
    fix h assume hl: "h < length (promises s)"
    show "if h \<in> hid ` set rest \<union> fst ` set (awaiting s)
        then (promises s)[hid e := Rejected err] ! h = Pending \<and>
             filter (\<lambda>x. fst x = h) (settlements s @ [(hid e, Rejected err)]) = []
        else (promises s)[hid e := Rejected err] ! h = verdict (submitted s ! h) \<and>
             filter (\<lambda>x. fst x = h) (settlements s @ [(hid e, Rejected err)]) =
               [(h, verdict (submitted s ! h))]"
    proof (cases "h = hid e")
      case True
      then show ?thesis using he pe by simp
    next
      case False
      have "if h \<in> hid ` set (queue s) \<union> fst ` set (awaiting s)
        then promises s ! h = Pending \<and> filter (\<lambda>x. fst x = h) (settlements s) = []
        else promises s ! h = verdict (submitted s ! h) \<and>
             filter (\<lambda>x. fst x = h) (settlements s) = [(h, verdict (submitted s ! h))]"
        using assms(2) hl by (simp add: accounted_def)
      then show ?thesis using False assms(3) by (auto split: if_splits)
    qed
  qed
  moreover have "\<forall>x\<in>set rest. task x = submitted s ! hid x"
    using assms(2,3) by (simp add: accounted_def)
  moreover have "\<forall>a\<in>set (awaiting s). submitted s ! fst a = Returns (snd a)"
    using assms(2) by (simp add: accounted_def)
  moreover have "\<forall>x\<in>set (settlements s @ [(hid e, Rejected err)]). fst x < length (promises s)"
    using assms(2) he(1) by (auto simp: accounted_def)
  ultimately show ?thesis
    unfolding accounted_def f by simp
qed

lemma accounted_parked:
  assumes "consistent s" "accounted s" "queue s = e # rest" "task e = Returns out"
  shows "accounted (suspend e out (launch e rest s))"
proof -
  let ?s' = "suspend e out (launch e rest s)"
  have f: "queue ?s' = rest" "awaiting ?s' = awaiting s @ [(hid e, out)]"
       "submitted ?s' = submitted s" "promises ?s' = promises s"
       "settlements ?s' = settlements s"
    by (simp_all add: op_defs)
  have "hid ` set rest \<union> fst ` set (awaiting s @ [(hid e, out)]) =
        hid ` set (queue s) \<union> fst ` set (awaiting s)"
    using assms(3) by auto
  moreover have "submitted s ! hid e = Returns out"
    using assms(2,3,4) by (auto simp: accounted_def)
  ultimately show ?thesis
    using assms(2,3) unfolding accounted_def f by simp
qed

lemma sound_process:
  "consistent s \<and> accounted s \<Longrightarrow> consistent (process s) \<and> accounted (process s)"
  by (rule process_rule[where P = "\<lambda>s. consistent s \<and> accounted s"])
     (auto intro: consistent_thrown consistent_parked accounted_thrown accounted_parked)

lemma accounted_limit: "accounted s \<Longrightarrow> accounted (s\<lparr>concurrency := n\<rparr>)"
  by (simp add: accounted_def)

lemma accounted_enqueue:
  assumes "consistent s" "accounted s"
  shows "accounted (enqueue t p s)"
proof -
  let ?n = "length (promises s)"
  let ?new = "\<lparr>task = t, priority = p, hid = ?n\<rparr>"
  let ?s' = "enqueue t p s"
  have len: "length (submitted s) = ?n" using assms(1) by (simp add: consistent_def)
  have qb: "\<forall>e\<in>set (queue s). hid e < ?n" and ab: "\<forall>a\<in>set (awaiting s). fst a < ?n"
    using assms(1) by (auto simp: consistent_def)
  have sq: "set (queue ?s') = insert ?new (set (queue s))"
    by (simp add: enqueue_def)
  have f: "awaiting ?s' = awaiting s" "submitted ?s' = submitted s @ [t]"
       "promises ?s' = promises s @ [Pending]" "settlements ?s' = settlements s"
    by (simp_all add: enqueue_def)
  have 1: "\<forall>e\<in>set (queue ?s'). task e = submitted ?s' ! hid e"
    using assms(2) qb len by (auto simp: sq f accounted_def nth_append)
  have 2: "\<forall>a\<in>set (awaiting ?s'). submitted ?s' ! fst a = Returns (snd a)"
    using assms(2) ab len by (auto simp: f accounted_def nth_append)
  have 3: "\<forall>x\<in>set (settlements ?s'). fst x < length (promises ?s')"
    using assms(2) by (auto simp: f accounted_def less_Suc_eq)
  have 4: "\<forall>h<length (promises ?s').
        if h \<in> hid ` set (queue ?s') \<union> fst ` set (awaiting ?s')
        then promises ?s' ! h = Pending \<and> filter (\<lambda>x. fst x = h) (settlements ?s') = []
        else promises ?s' ! h = verdict (submitted ?s' ! h) \<and>
             filter (\<lambda>x. fst x = h) (settlements ?s') = [(h, verdict (submitted ?s' ! h))]"
  proof (intro allI impI)
    fix h assume "h < length (promises ?s')"
    then consider "h = ?n" | "h < ?n" by (auto simp: f less_Suc_eq)
    then show "if h \<in> hid ` set (queue ?s') \<union> fst ` set (awaiting ?s')
        then promises ?s' ! h = Pending \<and> filter (\<lambda>x. fst x = h) (settlements ?s') = []
        else promises ?s' ! h = verdict (submitted ?s' ! h) \<and>
             filter (\<lambda>x. fst x = h) (settlements ?s') = [(h, verdict (submitted ?s' ! h))]"
    proof cases
      case 1
      have "\<forall>x\<in>set (settlements s). fst x \<noteq> ?n"
        using assms(2) by (auto simp: accounted_def)
      then have "filter (\<lambda>x. fst x = ?n) (settlements s) = []"
        by (simp add: filter_empty_conv)
      then show ?thesis using 1 by (simp add: sq f)
    next
      case 2
      have old: "if h \<in> hid ` set (queue s) \<union> fst ` set (awaiting s)
        then promises s ! h = Pending \<and> filter (\<lambda>x. fst x = h) (settlements s) = []
        else promises s ! h = verdict (submitted s ! h) \<and>
             filter (\<lambda>x. fst x = h) (settlements s) = [(h, verdict (submitted s ! h))]"
        using assms(2) 2 by (simp add: accounted_def)
      have "h \<in> hid ` set (queue ?s') \<union> fst ` set (awaiting ?s') \<longleftrightarrow>
            h \<in> hid ` set (queue s) \<union> fst ` set (awaiting s)"
        using 2 by (auto simp: sq f)
      then show ?thesis using old 2 len by (simp add: f nth_append)
    qed
  qed
  show ?thesis unfolding accounted_def using 1 2 3 4 by blast
qed

lemma accounted_finish:
  assumes "consistent s" "accounted s" "map_of (awaiting s) h = Some out"
  shows "accounted (finish h out s)"
proof -
  let ?s' = "finish h out s"
  let ?v = "verdict (Returns out)"
  have mem: "(h, out) \<in> set (awaiting s)" using assms(3) by (rule map_of_SomeD)
  then have hin: "h \<in> fst ` set (awaiting s)" by force
  then have hst: "h \<in> set (started s)" using assms(1) by (auto simp: consistent_def)
  then have hs: "h < length (promises s)" "h \<notin> hid ` set (queue s)"
    using assms(1) by (auto simp: consistent_def)
  have sub: "submitted s ! h = Returns out"
    using assms(2) mem by (auto simp: accounted_def)
  have "if h \<in> hid ` set (queue s) \<union> fst ` set (awaiting s)
        then promises s ! h = Pending \<and> filter (\<lambda>x. fst x = h) (settlements s) = []
        else promises s ! h = verdict (submitted s ! h) \<and>
             filter (\<lambda>x. fst x = h) (settlements s) = [(h, verdict (submitted s ! h))]"
    using assms(2) hs(1) by (simp add: accounted_def)
  then have ph: "promises s ! h = Pending" "filter (\<lambda>x. fst x = h) (settlements s) = []"
    using hin by simp_all
  have f: "queue ?s' = queue s" "awaiting ?s' = filter (\<lambda>a. fst a \<noteq> h) (awaiting s)"
       "submitted ?s' = submitted s" "promises ?s' = (promises s)[h := ?v]"
       "settlements ?s' = settlements s @ [(h, ?v)]"
    using hs(1) ph(1) by (simp_all add: finish_def op_defs)
  have 1: "\<forall>e\<in>set (queue ?s'). task e = submitted ?s' ! hid e"
    using assms(2) by (simp add: f accounted_def)
  have 2: "\<forall>a\<in>set (awaiting ?s'). submitted ?s' ! fst a = Returns (snd a)"
    using assms(2) by (simp add: f accounted_def)
  have 3: "\<forall>x\<in>set (settlements ?s'). fst x < length (promises ?s')"
    using assms(2) hs(1) by (auto simp: f accounted_def)
  have 4: "\<forall>k<length (promises ?s').
        if k \<in> hid ` set (queue ?s') \<union> fst ` set (awaiting ?s')
        then promises ?s' ! k = Pending \<and> filter (\<lambda>x. fst x = k) (settlements ?s') = []
        else promises ?s' ! k = verdict (submitted ?s' ! k) \<and>
             filter (\<lambda>x. fst x = k) (settlements ?s') = [(k, verdict (submitted ?s' ! k))]"
  proof (intro allI impI)
    fix k assume kl: "k < length (promises ?s')"
    then have kl': "k < length (promises s)" by (simp add: f)
    show "if k \<in> hid ` set (queue ?s') \<union> fst ` set (awaiting ?s')
        then promises ?s' ! k = Pending \<and> filter (\<lambda>x. fst x = k) (settlements ?s') = []
        else promises ?s' ! k = verdict (submitted ?s' ! k) \<and>
             filter (\<lambda>x. fst x = k) (settlements ?s') = [(k, verdict (submitted ?s' ! k))]"
    proof (cases "k = h")
      case True
      have "h \<notin> hid ` set (queue ?s') \<union> fst ` set (awaiting ?s')"
        using hs(2) by (auto simp: f)
      then show ?thesis using True hs(1) ph sub by (simp add: f)
    next
      case False
      have old: "if k \<in> hid ` set (queue s) \<union> fst ` set (awaiting s)
        then promises s ! k = Pending \<and> filter (\<lambda>x. fst x = k) (settlements s) = []
        else promises s ! k = verdict (submitted s ! k) \<and>
             filter (\<lambda>x. fst x = k) (settlements s) = [(k, verdict (submitted s ! k))]"
        using assms(2) kl' by (simp add: accounted_def)
      have "k \<in> hid ` set (queue ?s') \<union> fst ` set (awaiting ?s') \<longleftrightarrow>
            k \<in> hid ` set (queue s) \<union> fst ` set (awaiting s)"
        using False by (auto simp: f)
      then show ?thesis using old False by (simp add: f)
    qed
  qed
  show ?thesis unfolding accounted_def using 1 2 3 4 by blast
qed

lemma sound_step:
  assumes "consistent s \<and> accounted s"
  shows "consistent (step e s) \<and> accounted (step e s)"
proof (cases e)
  case (Add t p)
  have "consistent (enqueue t p s) \<and> accounted (enqueue t p s)"
    using assms by (simp add: consistent_enqueue accounted_enqueue)
  then show ?thesis using Add by (simp add: add_enqueue sound_process)
next
  case (SetLimit n)
  have "consistent (s\<lparr>concurrency := n\<rparr>) \<and> accounted (s\<lparr>concurrency := n\<rparr>)"
    using assms by (simp add: consistent_limit accounted_limit)
  then show ?thesis using SetLimit by (simp add: setLimit_def sound_process)
next
  case (Complete h)
  show ?thesis
  proof (cases "map_of (awaiting s) h")
    case None
    then show ?thesis using assms Complete by (simp add: resume_finish)
  next
    case (Some out)
    have "consistent (finish h out s) \<and> accounted (finish h out s)"
      using assms Some by (simp add: consistent_finish accounted_finish)
    then have "consistent (process (process (finish h out s))) \<and>
               accounted (process (process (finish h out s)))"
      by (intro sound_process)
    then show ?thesis using Some Complete by (simp add: resume_finish)
  qed
qed

lemma sound_exec:
  "consistent s \<and> accounted s \<Longrightarrow> consistent (exec es s) \<and> accounted (exec es s)"
proof (induction es arbitrary: s)
  case Nil
  then show ?case by simp
next
  case (Cons e es)
  from Cons.prems have "consistent (step e s) \<and> accounted (step e s)" by (rule sound_step)
  then show ?case using Cons.IH by simp
qed

lemma sound_run: "consistent (exec es (init c)) \<and> accounted (exec es (init c))"
  by (rule sound_exec) (simp add: consistent_init accounted_init)

section \<open>The order of starts only grows\<close>

lemma started_process: "prefix (started s) (started (process s))"
  by (rule process_rule[where P = "\<lambda>s'. prefix (started s) (started s')"])
     (auto simp: op_defs intro: prefix_order.trans)

lemma started_step: "prefix (started s) (started (step e s))"
proof (cases e)
  case (Add t p)
  have "started (enqueue t p s) = started s" by (simp add: enqueue_def)
  then show ?thesis using Add started_process[of "enqueue t p s"] by (simp add: add_enqueue)
next
  case (SetLimit n)
  then show ?thesis using started_process[of "s\<lparr>concurrency := n\<rparr>"] by (simp add: setLimit_def)
next
  case (Complete h)
  show ?thesis
  proof (cases "map_of (awaiting s) h")
    case None
    then show ?thesis using Complete by (simp add: resume_finish)
  next
    case (Some out)
    have "started (finish h out s) = started s" by (simp add: finish_def op_defs)
    then have "prefix (started s) (started (process (process (finish h out s))))"
      using started_process[of "finish h out s"] started_process[of "process (finish h out s)"]
      by (auto intro: prefix_order.trans)
    then show ?thesis using Some Complete by (simp add: resume_finish)
  qed
qed

lemma started_exec: "prefix (started s) (started (exec es s))"
proof (induction es arbitrary: s)
  case Nil
  show ?case by simp
next
  case (Cons e es)
  have "prefix (started s) (started (step e s))" by (rule started_step)
  also have "prefix (started (step e s)) (started (exec es (step e s)))" by (rule Cons.IH)
  finally show ?case by simp
qed

lemma exec_append: "exec (es @ es') s = exec es' (exec es s)"
  by (induction es arbitrary: s) simp_all

section \<open>The state invariants\<close>

text \<open>
  C8.  After any sequence of \<^verbatim>\<open>add\<close>, \<^verbatim>\<open>setLimit\<close> and completions from a freshly
  constructed queue: \<^verbatim>\<open>running\<close> is not negative (it counts the parked invocations),
  no \<^verbatim>\<open>shift()\<close> was made on an empty queue, no record is queued twice, and a record that
  has been started (taken off the queue) is not in the queue now nor after any further steps.
\<close>

theorem dispatcher_invariants:
  "0 \<le> running (exec es (init c)) \<and>
   running (exec es (init c)) = int (length (awaiting (exec es (init c)))) \<and>
   \<not> crashed (exec es (init c)) \<and>
   distinct (map hid (queue (exec es (init c)))) \<and>
   (\<forall>h\<in>set (started (exec es (init c))). \<forall>es'.
       h \<notin> hid ` set (queue (exec es' (exec es (init c)))))"
proof -
  let ?s = "exec es (init c)"
  have c: "consistent ?s" using sound_run by blast
  have later: "h \<notin> hid ` set (queue (exec es' ?s))" if "h \<in> set (started ?s)" for h es'
  proof -
    have "consistent (exec (es @ es') (init c))" using sound_run by blast
    then have "set (started (exec es' ?s)) \<inter> hid ` set (queue (exec es' ?s)) = {}"
      by (simp add: exec_append consistent_def)
    moreover have "h \<in> set (started (exec es' ?s))"
      using that started_exec[of ?s es'] by (auto dest: set_mono_prefix)
    ultimately show ?thesis by blast
  qed
  from c have "0 \<le> running ?s" "running ?s = int (length (awaiting ?s))" "\<not> crashed ?s"
    "distinct (map hid (queue ?s))"
    by (simp_all add: consistent_def)
  with later show ?thesis by blast
qed

theorem dispatcher_invariants_witness:
  "(0::nat) \<in> set (started (exec [Add (Returns (Fulfil ''a'')) 0, Add (Returns (Fulfil ''b'')) 3] (init 1))) \<and>
   0 \<notin> hid ` set (queue (exec [Complete 0, Add (Throws ''c'') 1]
          (exec [Add (Returns (Fulfil ''a'')) 0, Add (Returns (Fulfil ''b'')) 3] (init 1)))) \<and>
   running (exec [Add (Returns (Fulfil ''a'')) 0, Add (Returns (Fulfil ''b'')) 3] (init 1) :: string state) = 1"
proof -
  have a: "started (exec [Add (Returns (Fulfil ''a'')) 0, Add (Returns (Fulfil ''b'')) 3] (init 1) :: string state) = [0]"
    by code_simp
  have b: "awaiting (exec [Add (Returns (Fulfil ''a'')) 0, Add (Returns (Fulfil ''b'')) 3] (init 1) :: string state) = [(0, Fulfil ''a'')]"
    by code_simp
  show ?thesis
    using dispatcher_invariants[of "[Add (Returns (Fulfil ''a'')) 0, Add (Returns (Fulfil ''b'')) 3] :: string event list" 1]
    unfolding a b by (auto simp del: exec.simps)
qed

section \<open>The counter and the limit\<close>

lemma process_bound:
  "concurrency (process s) = concurrency s \<and>
   running (process s) \<le> max (running s) (concurrency s)"
  by (rule process_rule[where
        P = "\<lambda>s'. concurrency s' = concurrency s \<and> running s' \<le> max (running s) (concurrency s)"])
     (auto simp: op_defs)

lemma step_bound: "running (step e s) \<le> max (running s) (concurrency (step e s))"
proof (cases e)
  case (Add t p)
  have "running (enqueue t p s) = running s" "concurrency (enqueue t p s) = concurrency s"
    by (simp_all add: enqueue_def)
  then show ?thesis using Add process_bound[of "enqueue t p s"] by (simp add: add_enqueue)
next
  case (SetLimit n)
  then show ?thesis using process_bound[of "s\<lparr>concurrency := n\<rparr>"] by (simp add: setLimit_def)
next
  case (Complete h)
  show ?thesis
  proof (cases "map_of (awaiting s) h")
    case None
    then show ?thesis using Complete by (simp add: resume_finish)
  next
    case (Some out)
    let ?f = "finish h out s"
    have f: "running ?f = running s - 1" "concurrency ?f = concurrency s"
      by (simp_all add: finish_def op_defs)
    have "running (process (process ?f)) \<le> max (running s) (concurrency (process (process ?f)))"
      using process_bound[of ?f] process_bound[of "process ?f"] f by auto
    then show ?thesis using Some Complete by (simp add: resume_finish)
  qed
qed

lemma step_concurrency:
  "concurrency (step e s) = (case e of SetLimit n \<Rightarrow> n | _ \<Rightarrow> concurrency s)"
proof (cases e)
  case (Add t p)
  then show ?thesis using process_bound[of "enqueue t p s"] by (simp add: add_enqueue enqueue_def)
next
  case (SetLimit n)
  then show ?thesis using process_bound[of "s\<lparr>concurrency := n\<rparr>"] by (simp add: setLimit_def)
next
  case (Complete h)
  show ?thesis
  proof (cases "map_of (awaiting s) h")
    case None
    then show ?thesis using Complete by (simp add: resume_finish)
  next
    case (Some out)
    have "concurrency (process (process (finish h out s))) = concurrency s"
      using process_bound[of "finish h out s"] process_bound[of "process (finish h out s)"]
      by (simp add: finish_def op_defs)
    then show ?thesis using Some Complete by (simp add: resume_finish)
  qed
qed

text \<open>
  C1, as amended.  From a queue constructed with a limit that is not negative, and as long
  as no call \<^verbatim>\<open>setLimit(n)\<close> is made with \<open>n\<close> below the value of \<^verbatim>\<open>running\<close> at
  the time of the call, \<^verbatim>\<open>running\<close> is at most the limit in effect after every step.
  In any state whatever, no step takes \<^verbatim>\<open>running\<close> above the larger of its old value and
  the limit in effect after the step: a lowered limit is only ever exceeded by the tasks
  that were already running.
\<close>

theorem running_within_limit:
  "(0 \<le> c \<and> (\<forall>k<length es. \<forall>n. es ! k = SetLimit n \<longrightarrow> running (exec (take k es) (init c)) \<le> n)
      \<longrightarrow> running (exec es (init c)) \<le> concurrency (exec es (init c))) \<and>
   running (step e s) \<le> max (running s) (concurrency (step e s))"
proof -
  have "(\<forall>k<length es. \<forall>n. es ! k = SetLimit n \<longrightarrow> running (exec (take k es) (init c)) \<le> n)
        \<Longrightarrow> 0 \<le> c \<Longrightarrow> running (exec es (init c)) \<le> concurrency (exec es (init c))"
  proof (induction es rule: rev_induct)
    case Nil
    then show ?case by (simp add: init_def)
  next
    case (snoc x xs)
    let ?s = "exec xs (init c)"
    have "\<forall>k<length xs. \<forall>n. xs ! k = SetLimit n \<longrightarrow> running (exec (take k xs) (init c)) \<le> n"
    proof (intro allI impI)
      fix k n assume k: "k < length xs" and "xs ! k = SetLimit n"
      then have "(xs @ [x]) ! k = SetLimit n" by (simp add: nth_append)
      moreover have "k < length (xs @ [x])" using k by simp
      ultimately have "running (exec (take k (xs @ [x])) (init c)) \<le> n"
        using snoc.prems(1) by blast
      then show "running (exec (take k xs) (init c)) \<le> n" using k by simp
    qed
    then have IH: "running ?s \<le> concurrency ?s" using snoc.IH snoc.prems(2) by blast
    have last: "\<forall>n. x = SetLimit n \<longrightarrow> running ?s \<le> n"
      using snoc.prems(1)[rule_format, of "length xs"] by simp
    have "running (step x ?s) \<le> max (running ?s) (concurrency (step x ?s))"
      by (rule step_bound)
    moreover have "concurrency (step x ?s) = (case x of SetLimit n \<Rightarrow> n | _ \<Rightarrow> concurrency ?s)"
      by (rule step_concurrency)
    then have "running ?s \<le> concurrency (step x ?s)"
      using IH last by (cases x) simp_all
    ultimately show ?case by (simp add: exec_append)
  qed
  then show ?thesis using step_bound by blast
qed

theorem running_within_limit_witness:
  "running (exec [Add (Returns (Fulfil ''a'')) 0, SetLimit 2, Add (Returns (Fulfil ''b'')) 0]
              (init 1) :: string state)
     \<le> concurrency (exec [Add (Returns (Fulfil ''a'')) 0, SetLimit 2, Add (Returns (Fulfil ''b'')) 0]
              (init 1) :: string state)"
proof -
  let ?es = "[Add (Returns (Fulfil ''a'')) 0, SetLimit 2, Add (Returns (Fulfil ''b'')) 0] :: string event list"
  have r: "running (exec [Add (Returns (Fulfil ''a'')) 0] (init 1) :: string state) = 1"
    by code_simp
  have "\<forall>k<length ?es. \<forall>n. ?es ! k = SetLimit n \<longrightarrow> running (exec (take k ?es) (init 1)) \<le> n"
  proof (intro allI impI)
    fix k n assume "k < length ?es" and e: "?es ! k = SetLimit n"
    then have "k = 0 \<or> k = 1 \<or> k = 2" by auto
    then have "k = 1" using e by auto
    then show "running (exec (take k ?es) (init 1)) \<le> n" using e r by (simp del: exec.simps)
  qed
  moreover have "(0::int) \<le> 1" by simp
  ultimately show ?thesis
    using running_within_limit[of 1 ?es "SetLimit 0" "init 0"] by blast
qed

text \<open>
  C1 as it stands fails when the limit is lowered while tasks run: with limit 2
  and two tasks running, \<^verbatim>\<open>setLimit(1)\<close> leaves both running.
\<close>

theorem running_above_lowered_limit:
  "\<not> running (exec [Add (Returns (Fulfil ''a'')) 0, Add (Returns (Fulfil ''b'')) 0, SetLimit 1]
                (init 2) :: string state)
      \<le> concurrency (exec [Add (Returns (Fulfil ''a'')) 0, Add (Returns (Fulfil ''b'')) 0, SetLimit 1]
                (init 2) :: string state)"
  by code_simp

text \<open>
  C2.  With limit 1, one task running and two queued, \<^verbatim>\<open>setLimit(3)\<close> starts one
  task only: the invocation of \<^verbatim>\<open>process\<close> is parked at the \<^verbatim>\<open>await\<close> inside its
  loop, so \<^verbatim>\<open>running\<close> is 2 and the third task is still queued when the call returns.
\<close>

theorem setLimit_fills_one_slot:
  "running (exec [Add (Returns (Fulfil ''a'')) 0, Add (Returns (Fulfil ''b'')) 0,
                  Add (Returns (Fulfil ''c'')) 0, SetLimit 3] (init 1) :: string state) = 2 \<and>
   map hid (queue (exec [Add (Returns (Fulfil ''a'')) 0, Add (Returns (Fulfil ''b'')) 0,
                  Add (Returns (Fulfil ''c'')) 0, SetLimit 3] (init 1) :: string state)) = [2] \<and>
   started (exec [Add (Returns (Fulfil ''a'')) 0, Add (Returns (Fulfil ''b'')) 0,
                  Add (Returns (Fulfil ''c'')) 0, SetLimit 3] (init 1) :: string state) = [0, 1]"
  by code_simp

section \<open>Lowered and non-positive limits\<close>

lemma pending_process:
  "fst ` set (awaiting (process s)) \<union> hid ` set (queue (process s))
     \<subseteq> fst ` set (awaiting s) \<union> hid ` set (queue s)"
  by (rule process_rule[where
        P = "\<lambda>s'. fst ` set (awaiting s') \<union> hid ` set (queue s')
                 \<subseteq> fst ` set (awaiting s) \<union> hid ` set (queue s)"])
     (auto simp: op_defs)

lemma submitted_process: "submitted (process s) = submitted s"
  by (rule process_rule[where P = "\<lambda>s'. submitted s' = submitted s"]) (auto simp: op_defs)

lemma completion_settles:
  assumes "consistent s" "accounted s" "(h, out) \<in> set (awaiting s)"
  shows "promises (step (Complete h) s) ! h = verdict (Returns out) \<and>
         filter (\<lambda>x. fst x = h) (settlements (step (Complete h) s)) = [(h, verdict (Returns out))] \<and>
         h \<notin> fst ` set (awaiting (step (Complete h) s))"
proof -
  have d: "distinct (map fst (awaiting s))" using assms(1) by (simp add: consistent_def)
  then have m: "map_of (awaiting s) h = Some out" using assms(3) by simp
  let ?f = "finish h out s"
  let ?s' = "process (process ?f)"
  have s': "step (Complete h) s = ?s'" using m by (simp add: resume_finish)
  have "h \<in> fst ` set (awaiting s)" using assms(3) by force
  then have hs: "h \<in> set (started s)" using assms(1) by (auto simp: consistent_def)
  then have hl: "h < length (promises s)" and hq: "h \<notin> hid ` set (queue s)"
    using assms(1) by (auto simp: consistent_def)
  have nin: "h \<notin> fst ` set (awaiting ?f) \<union> hid ` set (queue ?f)"
    using hq by (auto simp: finish_def op_defs)
  have "fst ` set (awaiting ?s') \<union> hid ` set (queue ?s')
          \<subseteq> fst ` set (awaiting ?f) \<union> hid ` set (queue ?f)"
    using pending_process[of "process ?f"] pending_process[of ?f] by (rule subset_trans)
  from this nin have out: "h \<notin> fst ` set (awaiting ?s') \<union> hid ` set (queue ?s')"
    by (rule contra_subsetD)
  have "consistent ?f \<and> accounted ?f"
    using assms(1,2) m by (simp add: consistent_finish accounted_finish)
  then have "consistent (process ?f) \<and> accounted (process ?f)" by (rule sound_process)
  then have fin: "consistent ?s' \<and> accounted ?s'" by (rule sound_process)
  have len: "length (promises ?s') = length (submitted ?s')"
    using fin by (simp add: consistent_def)
  have sub: "submitted ?s' = submitted s" "length (submitted s) = length (promises s)"
    using assms(1) by (simp_all add: submitted_process finish_def op_defs consistent_def)
  have "\<forall>a\<in>set (awaiting s). submitted s ! fst a = Returns (snd a)"
    using assms(2) by (simp add: accounted_def)
  from bspec[OF this assms(3)] have task: "submitted s ! h = Returns out" by simp
  have "h < length (promises ?s')" using len sub hl by simp
  then have "if h \<in> hid ` set (queue ?s') \<union> fst ` set (awaiting ?s')
        then promises ?s' ! h = Pending \<and> filter (\<lambda>x. fst x = h) (settlements ?s') = []
        else promises ?s' ! h = verdict (submitted ?s' ! h) \<and>
             filter (\<lambda>x. fst x = h) (settlements ?s') = [(h, verdict (submitted ?s' ! h))]"
    using fin by (simp add: accounted_def)
  moreover have "h \<notin> hid ` set (queue ?s') \<union> fst ` set (awaiting ?s')"
    using out by (simp add: Un_commute)
  ultimately have "promises ?s' ! h = verdict (submitted ?s' ! h) \<and>
             filter (\<lambda>x. fst x = h) (settlements ?s') = [(h, verdict (submitted ?s' ! h))]"
    by simp
  moreover have "submitted ?s' ! h = Returns out" using sub(1) task by simp
  moreover have "h \<notin> fst ` set (awaiting ?s')" using out by simp
  ultimately show ?thesis unfolding s' by simp
qed

text \<open>
  C6.  \<^verbatim>\<open>setLimit(n)\<close> with \<open>n\<close> below \<^verbatim>\<open>running\<close> changes the limit and nothing else:
  no parked invocation is dropped and nothing is started.  While \<^verbatim>\<open>running\<close> is above
  the limit neither an \<^verbatim>\<open>add\<close> nor a completion starts a task.  In a reachable state
  the completion of a running task, whatever the limit, settles its own handle with its
  own outcome.
\<close>

theorem lowered_limit_spares_running:
  "(n < running s \<longrightarrow> step (SetLimit n) s = s\<lparr>concurrency := n\<rparr>) \<and>
   (concurrency s < running s \<longrightarrow>
      started (step (Add t p) s) = started s \<and> started (step (Complete k) s) = started s) \<and>
   ((h, out) \<in> set (awaiting (exec es (init c))) \<longrightarrow>
      promises (step (Complete h) (exec es (init c))) ! h = verdict (Returns out))"
proof (intro conjI impI)
  assume "n < running s"
  then show "step (SetLimit n) s = s\<lparr>concurrency := n\<rparr>"
    by (simp add: setLimit_def process_idle)
next
  assume a: "concurrency s < running s"
  have "process (enqueue t p s) = enqueue t p s"
    using a by (intro process_idle) (simp add: enqueue_def)
  then show "started (step (Add t p) s) = started s"
    by (simp add: add_enqueue) (simp add: enqueue_def)
next
  assume a: "concurrency s < running s"
  show "started (step (Complete k) s) = started s"
  proof (cases "map_of (awaiting s) k")
    case None
    then show ?thesis by (simp add: resume_finish)
  next
    case (Some out')
    have "process (finish k out' s) = finish k out' s"
      using a by (intro process_idle) (simp add: finish_def op_defs)
    then show ?thesis using Some by (simp add: resume_finish) (simp add: finish_def op_defs)
  qed
next
  assume "(h, out) \<in> set (awaiting (exec es (init c)))"
  then show "promises (step (Complete h) (exec es (init c))) ! h = verdict (Returns out)"
    using completion_settles[of "exec es (init c)" h out] sound_run[of es c] by blast
qed

theorem lowered_limit_spares_running_witness:
  "step (SetLimit 1)
     (exec [Add (Returns (Fulfil ''a'')) 0, Add (Returns (Fail ''b'')) 0, Add (Returns (Fulfil ''c'')) 0]
        (init 2) :: string state)
   = (exec [Add (Returns (Fulfil ''a'')) 0, Add (Returns (Fail ''b'')) 0, Add (Returns (Fulfil ''c'')) 0]
        (init 2))\<lparr>concurrency := 1\<rparr> \<and>
   started (step (Complete 0)
     (exec [Add (Returns (Fulfil ''a'')) 0, Add (Returns (Fail ''b'')) 0, Add (Returns (Fulfil ''c'')) 0,
            SetLimit 1] (init 2) :: string state))
   = started (exec [Add (Returns (Fulfil ''a'')) 0, Add (Returns (Fail ''b'')) 0,
            Add (Returns (Fulfil ''c'')) 0, SetLimit 1] (init 2) :: string state) \<and>
   promises (step (Complete 1)
     (exec [Add (Returns (Fulfil ''a'')) 0, Add (Returns (Fail ''b'')) 0, Add (Returns (Fulfil ''c'')) 0,
            SetLimit 1] (init 2) :: string state)) ! 1 = Rejected ''b''"
proof -
  let ?es = "[Add (Returns (Fulfil ''a'')) 0, Add (Returns (Fail ''b'')) 0,
              Add (Returns (Fulfil ''c'')) 0] :: string event list"
  let ?es' = "[Add (Returns (Fulfil ''a'')) 0, Add (Returns (Fail ''b'')) 0,
              Add (Returns (Fulfil ''c'')) 0, SetLimit 1] :: string event list"
  have r: "1 < running (exec ?es (init 2))" by code_simp
  have r': "concurrency (exec ?es' (init 2)) < running (exec ?es' (init 2))" by code_simp
  have a: "(1, Fail ''b'') \<in> set (awaiting (exec ?es' (init 2)))" by code_simp
  have "step (SetLimit 1) (exec ?es (init 2)) = (exec ?es (init 2))\<lparr>concurrency := 1\<rparr>"
    using lowered_limit_spares_running[of 1 "exec ?es (init 2)"] r by blast
  moreover have "started (step (Complete 0) (exec ?es' (init 2))) = started (exec ?es' (init 2))"
    using lowered_limit_spares_running[of _ "exec ?es' (init 2)"] r' by blast
  moreover have "promises (step (Complete 1) (exec ?es' (init 2))) ! 1 = verdict (Returns (Fail ''b''))"
    using lowered_limit_spares_running[of _ _ _ _ _ 1 "Fail ''b''" ?es' 2] a by blast
  ultimately show ?thesis by (simp del: exec.simps step.simps)
qed

lemma closed_step:
  assumes "consistent s" "concurrency s \<le> 0" "\<forall>n. e = SetLimit n \<longrightarrow> n \<le> 0"
  shows "concurrency (step e s) \<le> 0 \<and> started (step e s) = started s \<and>
         set (queue s) \<subseteq> set (queue (step e s))"
proof -
  have r: "0 \<le> running s" using assms(1) by (simp add: consistent_def)
  show ?thesis
  proof (cases e)
    case (Add t p)
    have "process (enqueue t p s) = enqueue t p s"
      using r assms(2) by (intro process_idle) (simp add: enqueue_def)
    then have "step e s = enqueue t p s" using Add by (simp add: add_enqueue)
    then show ?thesis using assms(2) by (auto simp: enqueue_def)
  next
    case (SetLimit n)
    then have "n \<le> 0" using assms(3) by simp
    then have "process (s\<lparr>concurrency := n\<rparr>) = s\<lparr>concurrency := n\<rparr>"
      using r by (intro process_idle) simp
    then show ?thesis using SetLimit \<open>n \<le> 0\<close> by (simp add: setLimit_def)
  next
    case (Complete h)
    show ?thesis
    proof (cases "map_of (awaiting s) h")
      case None
      then show ?thesis using Complete assms(2) by (simp add: resume_finish)
    next
      case (Some out)
      then have "awaiting s \<noteq> []" by auto
      then have "1 \<le> running s" using assms(1) by (cases "awaiting s") (simp_all add: consistent_def)
      then have "process (finish h out s) = finish h out s"
        using assms(2) by (intro process_idle) (simp add: finish_def op_defs)
      then have "step e s = finish h out s" using Some Complete by (simp add: resume_finish)
      then show ?thesis using assms(2) by (simp add: finish_def op_defs)
    qed
  qed
qed

lemma closed_exec:
  assumes "consistent s" "concurrency s \<le> 0" "\<forall>e\<in>set es. \<forall>n. e = SetLimit n \<longrightarrow> n \<le> 0"
  shows "started (exec es s) = started s \<and> set (queue s) \<subseteq> set (queue (exec es s))"
  using assms
proof (induction es arbitrary: s)
  case Nil
  show ?case by simp
next
  case (Cons e es)
  have e: "\<forall>n. e = SetLimit n \<longrightarrow> n \<le> 0" using Cons.prems(3) by simp
  have st: "concurrency (step e s) \<le> 0 \<and> started (step e s) = started s \<and>
         set (queue s) \<subseteq> set (queue (step e s))"
    using Cons.prems(1,2) e by (rule closed_step)
  have "consistent (step e s)" using Cons.prems(1) by (rule consistent_step)
  moreover have "\<forall>e\<in>set es. \<forall>n. e = SetLimit n \<longrightarrow> n \<le> 0" using Cons.prems(3) by simp
  ultimately have "started (exec es (step e s)) = started (step e s) \<and>
         set (queue (step e s)) \<subseteq> set (queue (exec es (step e s)))"
    using st Cons.IH by blast
  with st show ?case by auto
qed

lemma queued_pending:
  assumes "consistent s" "accounted s" "q \<in> set (queue s)"
  shows "promises s ! hid q = Pending"
proof -
  have "hid q \<in> hid ` set (queue s)" using assms(3) by (rule imageI)
  moreover from this have "hid q < length (promises s)" using assms(1) by (simp add: consistent_def)
  then have "if hid q \<in> hid ` set (queue s) \<union> fst ` set (awaiting s)
        then promises s ! hid q = Pending \<and> filter (\<lambda>x. fst x = hid q) (settlements s) = []
        else promises s ! hid q = verdict (submitted s ! hid q) \<and>
             filter (\<lambda>x. fst x = hid q) (settlements s) = [(hid q, verdict (submitted s ! hid q))]"
    using assms(2) by (simp add: accounted_def)
  ultimately show ?thesis by simp
qed

text \<open>
  C9.  The constructor and \<^verbatim>\<open>setLimit\<close> store the value they are given, also a
  negative one, and raise nothing.  In a reachable state \<^verbatim>\<open>setLimit(n)\<close> with
  \<open>n \<le> 0\<close> changes the limit field and nothing else.  While the limit is \<open>\<le> 0\<close>, whatever
  further calls of \<^verbatim>\<open>add\<close>, completions and calls of \<^verbatim>\<open>setLimit\<close> with values
  \<open>\<le> 0\<close> follow, no task is started and every queued record stays queued with its handle
  pending.
\<close>

theorem nonpositive_limit_starts_nothing:
  "concurrency (init c) = c \<and> \<not> crashed (init c) \<and>
   (n \<le> 0 \<longrightarrow> step (SetLimit n) (exec es (init c)) = (exec es (init c))\<lparr>concurrency := n\<rparr>) \<and>
   (concurrency (exec es (init c)) \<le> 0 \<and> (\<forall>e\<in>set es'. \<forall>m. e = SetLimit m \<longrightarrow> m \<le> 0) \<longrightarrow>
      started (exec es' (exec es (init c))) = started (exec es (init c)) \<and>
      (\<forall>q\<in>set (queue (exec es (init c))).
          q \<in> set (queue (exec es' (exec es (init c)))) \<and>
          promises (exec es' (exec es (init c))) ! hid q = Pending))"
proof -
  let ?s = "exec es (init c)"
  have cs: "consistent ?s" using sound_run by blast
  then have r: "0 \<le> running ?s" by (simp add: consistent_def)
  have 1: "concurrency (init c) = c \<and> \<not> crashed (init c)" by (simp add: init_def)
  have 2: "step (SetLimit n) ?s = ?s\<lparr>concurrency := n\<rparr>" if "n \<le> 0"
    using that r by (simp add: setLimit_def process_idle)
  have 3: "started (exec es' ?s) = started ?s \<and>
      (\<forall>q\<in>set (queue ?s). q \<in> set (queue (exec es' ?s)) \<and> promises (exec es' ?s) ! hid q = Pending)"
    if a: "concurrency ?s \<le> 0" and b: "\<forall>e\<in>set es'. \<forall>m. e = SetLimit m \<longrightarrow> m \<le> 0"
  proof -
    have k: "started (exec es' ?s) = started ?s \<and> set (queue ?s) \<subseteq> set (queue (exec es' ?s))"
      using cs a b by (rule closed_exec)
    have "consistent (exec (es @ es') (init c)) \<and> accounted (exec (es @ es') (init c))"
      by (rule sound_run)
    then have s': "consistent (exec es' ?s)" "accounted (exec es' ?s)"
      by (simp_all add: exec_append)
    have "promises (exec es' ?s) ! hid q = Pending" if "q \<in> set (queue (exec es' ?s))" for q
      using s' that by (rule queued_pending)
    with k show ?thesis by blast
  qed
  from 1 2 3 show ?thesis by blast
qed

theorem nonpositive_limit_starts_nothing_witness:
  "concurrency (init (- 2) :: string state) = - 2 \<and>
   step (SetLimit (- 1)) (exec [Add (Returns (Fulfil ''a'')) 4] (init (- 2)) :: string state)
     = (exec [Add (Returns (Fulfil ''a'')) 4] (init (- 2)))\<lparr>concurrency := - 1\<rparr> \<and>
   started (exec [Add (Throws ''b'') 9, SetLimit (- 1), SetLimit 0]
             (exec [Add (Returns (Fulfil ''a'')) 4] (init (- 2)) :: string state)) = [] \<and>
   promises (exec [Add (Throws ''b'') 9, SetLimit (- 1), SetLimit 0]
             (exec [Add (Returns (Fulfil ''a'')) 4] (init (- 2)) :: string state)) ! 0 = Pending"
proof -
  let ?es = "[Add (Returns (Fulfil ''a'')) 4] :: string event list"
  let ?es' = "[Add (Throws ''b'') 9, SetLimit (- 1), SetLimit 0] :: string event list"
  let ?q = "\<lparr>task = Returns (Fulfil ''a''), priority = 4, hid = 0\<rparr> :: string entry"
  note T = nonpositive_limit_starts_nothing[of "- 2" "- 1" ?es ?es']
  have c: "concurrency (exec ?es (init (- 2))) \<le> 0" by code_simp
  have q: "queue (exec ?es (init (- 2))) = [?q]" by code_simp
  have s: "started (exec ?es (init (- 2))) = []" by code_simp
  have l: "\<forall>e\<in>set ?es'. \<forall>m. e = SetLimit m \<longrightarrow> m \<le> 0" by simp
  have n: "(- 1::int) \<le> 0" by simp
  have "started (exec ?es' (exec ?es (init (- 2)))) = started (exec ?es (init (- 2))) \<and>
      (\<forall>q\<in>set (queue (exec ?es (init (- 2)))).
          q \<in> set (queue (exec ?es' (exec ?es (init (- 2))))) \<and>
          promises (exec ?es' (exec ?es (init (- 2)))) ! hid q = Pending)"
    using T c l by blast
  then have "started (exec ?es' (exec ?es (init (- 2)))) = [] \<and>
      promises (exec ?es' (exec ?es (init (- 2)))) ! 0 = Pending"
    unfolding q s by (simp del: exec.simps)
  moreover have "step (SetLimit (- 1)) (exec ?es (init (- 2)))
     = (exec ?es (init (- 2)))\<lparr>concurrency := - 1\<rparr>"
    using T n by blast
  moreover have "concurrency (init (- 2) :: string state) = - 2" using T by blast
  ultimately show ?thesis by blast
qed

section \<open>Settlement of handles\<close>

lemma promises_length_process: "length (promises (process s)) = length (promises s)"
  by (rule process_rule[where P = "\<lambda>s'. length (promises s') = length (promises s)"])
     (auto simp: op_defs)

lemma process_parks_or_rests:
  "\<not> (running (process s) < concurrency (process s) \<and> queue (process s) \<noteq> []) \<or>
   awaiting (process s) \<noteq> []"
proof (induction s rule: process.induct)
  case (1 s)
  show ?case
  proof (cases "running s < concurrency s \<and> queue s \<noteq> []")
    case False
    then show ?thesis by (simp add: process_idle)
  next
    case True
    then obtain e rest where q: "queue s = e # rest" by (cases "queue s") auto
    from True have g: "running s < concurrency s \<and> 0 < length (queue s)" by simp
    have sh: "shift (queue s) = Some (e, rest)" by (simp add: q)
    show ?thesis
    proof (cases "task e")
      case (Throws err)
      then show ?thesis using 1(2)[OF g sh refl Throws] True q by (simp add: process_Throws)
    next
      case (Returns out)
      then show ?thesis using True q by (simp add: process_Returns) (simp add: op_defs)
    qed
  qed
qed

lemma step_parks_or_rests:
  assumes "\<not> (running s < concurrency s \<and> queue s \<noteq> []) \<or> awaiting s \<noteq> []"
  shows "\<not> (running (step e s) < concurrency (step e s) \<and> queue (step e s) \<noteq> []) \<or>
         awaiting (step e s) \<noteq> []"
proof (cases e)
  case (Add t p)
  then show ?thesis using process_parks_or_rests[of "enqueue t p s"] by (simp add: add_enqueue)
next
  case (SetLimit n)
  then show ?thesis using process_parks_or_rests[of "s\<lparr>concurrency := n\<rparr>"]
    by (simp add: setLimit_def)
next
  case (Complete h)
  show ?thesis
  proof (cases "map_of (awaiting s) h")
    case None
    then show ?thesis using assms Complete by (simp add: resume_finish)
  next
    case (Some out)
    then show ?thesis using Complete process_parks_or_rests[of "process (finish h out s)"]
      by (simp add: resume_finish)
  qed
qed

lemma run_parks_or_rests:
  "\<not> (running (exec es (init c)) < concurrency (exec es (init c)) \<and> queue (exec es (init c)) \<noteq> [])
   \<or> awaiting (exec es (init c)) \<noteq> []"
proof (induction es rule: rev_induct)
  case Nil
  show ?case by (simp add: init_def)
next
  case (snoc e es)
  then show ?case using step_parks_or_rests[of "exec es (init c)" e] by (simp add: exec_append)
qed

lemma unsettled_process:
  "length (queue (process s)) + length (awaiting (process s))
     \<le> length (queue s) + length (awaiting s)"
  by (rule process_rule[where
        P = "\<lambda>s'. length (queue s') + length (awaiting s') \<le> length (queue s) + length (awaiting s)"])
     (auto simp: op_defs)

lemma unsettled_completion:
  assumes "consistent s" "(k, out) \<in> set (awaiting s)"
  shows "length (queue (step (Complete k) s)) + length (awaiting (step (Complete k) s))
           < length (queue s) + length (awaiting s)"
proof -
  have d: "distinct (map fst (awaiting s))" using assms(1) by (simp add: consistent_def)
  then have m: "map_of (awaiting s) k = Some out" using assms(2) by simp
  let ?f = "finish k out s"
  have "Suc (length (awaiting ?f)) = length (awaiting s)"
    using length_filter_parked[OF d m] by (simp add: finish_def op_defs)
  moreover have "queue ?f = queue s" by (simp add: finish_def op_defs)
  moreover have "length (queue (process (process ?f))) + length (awaiting (process (process ?f)))
        \<le> length (queue ?f) + length (awaiting ?f)"
    using unsettled_process[of ?f] unsettled_process[of "process ?f"] by linarith
  ultimately show ?thesis using m by (simp add: resume_finish)
qed

text \<open>
  C4, as amended.  In every reachable state each handle handed out by \<^verbatim>\<open>add\<close> is in one of two
  conditions.  While its record is queued or its task runs, the handle is pending and
  neither of its resolving functions has been called.  Otherwise exactly one call of a
  resolving function of that handle has been made, with the value or the failure of the
  handle's own task, and the handle is settled so.  \<^verbatim>\<open>add\<close> returns a fresh handle
  for the task it is given, and the completion of a running task makes exactly one such
  call.  Handles do get there: under a positive limit something is running whenever
  something is queued, and every completion of a running task leaves fewer handles
  queued or running than before.
\<close>

theorem handle_settles_once:
  "(h < length (promises (exec es (init c))) \<longrightarrow>
     (if h \<in> hid ` set (queue (exec es (init c))) \<union> fst ` set (awaiting (exec es (init c)))
      then promises (exec es (init c)) ! h = Pending \<and>
           filter (\<lambda>x. fst x = h) (settlements (exec es (init c))) = []
      else promises (exec es (init c)) ! h = verdict (submitted (exec es (init c)) ! h) \<and>
           filter (\<lambda>x. fst x = h) (settlements (exec es (init c))) =
             [(h, verdict (submitted (exec es (init c)) ! h))])) \<and>
   fst (add t p (exec es (init c))) = length (promises (exec es (init c))) \<and>
   length (promises (snd (add t p (exec es (init c))))) = Suc (length (promises (exec es (init c)))) \<and>
   submitted (snd (add t p (exec es (init c)))) ! fst (add t p (exec es (init c))) = t \<and>
   ((k, out) \<in> set (awaiting (exec es (init c))) \<longrightarrow>
      filter (\<lambda>x. fst x = k) (settlements (step (Complete k) (exec es (init c)))) =
        [(k, verdict (Returns out))] \<and>
      length (queue (step (Complete k) (exec es (init c)))) +
        length (awaiting (step (Complete k) (exec es (init c))))
        < length (queue (exec es (init c))) + length (awaiting (exec es (init c)))) \<and>
   (0 < concurrency (exec es (init c)) \<and> queue (exec es (init c)) \<noteq> [] \<longrightarrow>
      awaiting (exec es (init c)) \<noteq> [])"
proof -
  let ?s = "exec es (init c)"
  have s: "consistent ?s" "accounted ?s" using sound_run[of es c] by simp_all
  have 1: "h < length (promises ?s) \<longrightarrow>
     (if h \<in> hid ` set (queue ?s) \<union> fst ` set (awaiting ?s)
      then promises ?s ! h = Pending \<and> filter (\<lambda>x. fst x = h) (settlements ?s) = []
      else promises ?s ! h = verdict (submitted ?s ! h) \<and>
           filter (\<lambda>x. fst x = h) (settlements ?s) = [(h, verdict (submitted ?s ! h))])"
    using s(2) by (simp add: accounted_def)
  have 2: "fst (add t p ?s) = length (promises ?s)" by (simp add: add_enqueue)
  have 3: "length (promises (snd (add t p ?s))) = Suc (length (promises ?s))"
    by (simp add: add_enqueue promises_length_process) (simp add: enqueue_def)
  have "length (submitted ?s) = length (promises ?s)" using s(1) by (simp add: consistent_def)
  then have "(submitted ?s @ [t]) ! length (promises ?s) = t"
    by (metis nth_append_length)
  then have 4: "submitted (snd (add t p ?s)) ! fst (add t p ?s) = t"
    by (simp add: add_enqueue submitted_process) (simp add: enqueue_def)
  have 5: "(k, out) \<in> set (awaiting ?s) \<longrightarrow>
      filter (\<lambda>x. fst x = k) (settlements (step (Complete k) ?s)) = [(k, verdict (Returns out))] \<and>
      length (queue (step (Complete k) ?s)) + length (awaiting (step (Complete k) ?s))
        < length (queue ?s) + length (awaiting ?s)"
    using completion_settles[OF s, of k out] unsettled_completion[OF s(1), of k out] by blast
  have 6: "awaiting ?s \<noteq> []" if "0 < concurrency ?s" "queue ?s \<noteq> []"
  proof
    assume e: "awaiting ?s = []"
    then have "running ?s = 0" using s(1) by (simp add: consistent_def)
    then show False using run_parks_or_rests[of es c] that e by simp
  qed
  from 1 2 3 4 5 6 show ?thesis by blast
qed

theorem handle_settles_once_witness:
  "promises (exec [Add (Returns (Fulfil ''a'')) 0, Add (Throws ''b'') 0, Add (Returns (Fail ''c'')) 0,
                   Complete 0] (init 1) :: string state) ! 1 = Rejected ''b'' \<and>
   filter (\<lambda>x. fst x = 1)
     (settlements (exec [Add (Returns (Fulfil ''a'')) 0, Add (Throws ''b'') 0, Add (Returns (Fail ''c'')) 0,
                   Complete 0] (init 1) :: string state)) = [(1, Rejected ''b'')] \<and>
   filter (\<lambda>x. fst x = 2)
     (settlements (step (Complete 2)
        (exec [Add (Returns (Fulfil ''a'')) 0, Add (Throws ''b'') 0, Add (Returns (Fail ''c'')) 0,
                   Complete 0] (init 1) :: string state))) = [(2, Rejected ''c'')] \<and>
   awaiting (exec [Add (Returns (Fulfil ''a'')) 0, Add (Returns (Fulfil ''d'')) 0]
                  (init 1) :: string state) \<noteq> []"
proof -
  let ?es = "[Add (Returns (Fulfil ''a'')) 0, Add (Throws ''b'') 0, Add (Returns (Fail ''c'')) 0,
              Complete 0] :: string event list"
  note T = handle_settles_once[of 1 ?es 1 _ _ 2 "Fail ''c''"]
  have l: "1 < length (promises (exec ?es (init 1)))" by code_simp
  have q: "queue (exec ?es (init 1)) = []" by code_simp
  have a: "awaiting (exec ?es (init 1)) = [(2, Fail ''c'')]" by code_simp
  have t: "submitted (exec ?es (init 1)) ! 1 = Throws ''b''" by code_simp
  have n: "1 \<notin> hid ` set (queue (exec ?es (init 1))) \<union> fst ` set (awaiting (exec ?es (init 1)))"
    unfolding q a by simp
  have m: "(2, Fail ''c'') \<in> set (awaiting (exec ?es (init 1)))" unfolding a by simp
  have "promises (exec ?es (init 1)) ! 1 = verdict (submitted (exec ?es (init 1)) ! 1) \<and>
        filter (\<lambda>x. fst x = 1) (settlements (exec ?es (init 1))) =
          [(1, verdict (submitted (exec ?es (init 1)) ! 1))]"
    using T l n by presburger
  moreover have "filter (\<lambda>x. fst x = 2) (settlements (step (Complete 2) (exec ?es (init 1)))) =
        [(2, verdict (Returns (Fail ''c'')))]"
    using T m by blast
  moreover
  let ?es2 = "[Add (Returns (Fulfil ''a'')) 0, Add (Returns (Fulfil ''d'')) 0] :: string event list"
  have c2: "0 < concurrency (exec ?es2 (init 1))" by code_simp
  have q2: "queue (exec ?es2 (init 1)) \<noteq> []" by code_simp
  have "awaiting (exec ?es2 (init 1)) \<noteq> []"
    using handle_settles_once[of _ ?es2 1] c2 q2 by blast
  ultimately show ?thesis unfolding t by (simp del: exec.simps step.simps)
qed

text \<open>
  C4 as it stands fails for a handle whose task is never started.  With limit 0 (a valid
  limit) \<^verbatim>\<open>add\<close> queues the record and starts nothing; a completion has nothing to
  resume and \<^verbatim>\<open>setLimit(0)\<close> starts nothing either.  No resolving function of the
  handle has been called, nothing is running whose completion could call
  \<^verbatim>\<open>process\<close>, and the handle is pending: it has not settled once.
\<close>

theorem handle_unsettled_at_limit_zero:
  "settlements (exec [Add (Returns (Fulfil ''a'')) 0, Complete 0, SetLimit 0] (init 0) :: string state) = [] \<and>
   promises (exec [Add (Returns (Fulfil ''a'')) 0, Complete 0, SetLimit 0] (init 0) :: string state) ! 0
     = Pending \<and>
   started (exec [Add (Returns (Fulfil ''a'')) 0, Complete 0, SetLimit 0] (init 0) :: string state) = [] \<and>
   awaiting (exec [Add (Returns (Fulfil ''a'')) 0, Complete 0, SetLimit 0] (init 0) :: string state) = [] \<and>
   map hid (queue (exec [Add (Returns (Fulfil ''a'')) 0, Complete 0, SetLimit 0] (init 0) :: string state))
     = [0]"
  by code_simp

section \<open>Failures\<close>

lemma process_starts_head:
  assumes "running s < concurrency s" "queue s = q # rest"
  shows "hid q \<in> set (started (process s))"
proof (cases "task q")
  case (Throws err)
  let ?s3 = "release (reject (hid q) err (launch q rest s))"
  have "hid q \<in> set (started ?s3)" by (simp add: op_defs)
  moreover have "prefix (started ?s3) (started (process (process ?s3)))"
    using started_process[of ?s3] started_process[of "process ?s3"]
    by (rule prefix_order.trans)
  ultimately have "hid q \<in> set (started (process (process ?s3)))"
    by (auto dest: set_mono_prefix)
  then show ?thesis using assms Throws by (simp add: process_Throws)
next
  case (Returns out)
  then show ?thesis using assms by (simp add: process_Returns) (simp add: op_defs)
qed

lemma crashed_step: "consistent s \<Longrightarrow> \<not> crashed (step e s)"
  using consistent_step[of s e] by (simp add: consistent_def)

lemma thrower_rejected:
  assumes "consistent s" "accounted s" "k \<in> set (started s)" "submitted s ! k = Throws err"
  shows "promises s ! k = Rejected err"
proof -
  have kl: "k < length (promises s)" and kq: "k \<notin> hid ` set (queue s)"
    using assms(1,3) by (auto simp: consistent_def)
  have "\<forall>a\<in>set (awaiting s). submitted s ! fst a = Returns (snd a)"
    using assms(2) by (simp add: accounted_def)
  then have ka: "k \<notin> fst ` set (awaiting s)" using assms(4) by force
  have "if k \<in> hid ` set (queue s) \<union> fst ` set (awaiting s)
    then promises s ! k = Pending \<and> filter (\<lambda>x. fst x = k) (settlements s) = []
    else promises s ! k = verdict (submitted s ! k) \<and>
         filter (\<lambda>x. fst x = k) (settlements s) = [(k, verdict (submitted s ! k))]"
    using assms(2) kl by (simp add: accounted_def)
  then show ?thesis using kq ka assms(4) by simp
qed

lemma process_after_throw:
  assumes "running s < concurrency s" "queue s = x # y # others" "task x = Throws err"
  shows "hid x \<in> set (started (process s)) \<and> hid y \<in> set (started (process s))"
proof -
  let ?s3 = "release (reject (hid x) err (launch x (y # others) s))"
  have "running ?s3 < concurrency ?s3" "queue ?s3 = y # others"
    using assms(1) by (simp_all add: op_defs)
  then have "hid y \<in> set (started (process ?s3))" by (rule process_starts_head)
  then have "hid y \<in> set (started (process (process ?s3)))"
    using started_process[of "process ?s3"] by (auto dest: set_mono_prefix)
  then have "hid y \<in> set (started (process s))"
    using assms by (simp add: process_Throws)
  moreover have "hid x \<in> set (started (process s))"
    using assms(1,2) by (rule process_starts_head)
  ultimately show ?thesis by simp
qed

lemma thrower_in_step:
  assumes "consistent s" "accounted s" "queue s = x # y # others" "task x = Throws err"
    and "consistent (step e s)" "accounted (step e s)"
    and "submitted (step e s) = submitted s"
    and "hid x \<in> set (started (step e s))"
  shows "promises (step e s) ! hid x = Rejected err"
proof -
  have "\<forall>e\<in>set (queue s). task e = submitted s ! hid e"
    using assms(2) by (simp add: accounted_def)
  then have "submitted s ! hid x = Throws err" using assms(3,4) by simp
  then have "submitted (step e s) ! hid x = Throws err" using assms(7) by simp
  with assms(5,6,8) show ?thesis by (rule thrower_rejected)
qed

section \<open>What a call waits for\<close>

lemma awaiting_process: "prefix (awaiting s) (awaiting (process s))"
  by (rule process_rule[where P = "\<lambda>s'. prefix (awaiting s) (awaiting s')"])
     (auto simp: op_defs intro: prefix_order.trans)












section \<open>The two timed fetches\<close>

lemma in_step_start: "in_step (fetchWithTimeout url ms) (fetchWithTimeoutClean url ms)"
  by (simp add: in_step_def fetchWithTimeout_def fetchWithTimeoutClean_def)

lemma in_step_deliver: "in_step a b \<Longrightarrow> in_step (deliver ev a) (deliverClean ev b)"
  by (cases ev) (auto simp: in_step_def resolving_def split: option.splits)

lemma in_step_fold: "in_step a b \<Longrightarrow> in_step (fold deliver evs a) (fold deliverClean evs b)"
  by (induction evs arbitrary: a b) (simp_all add: in_step_deliver)

lemma settled_deliver: "returned a \<noteq> Pending \<Longrightarrow> returned (deliver ev a) = returned a"
  by (cases ev) (auto simp: resolving_def split: option.splits)

lemma settled_fold: "returned a \<noteq> Pending \<Longrightarrow> returned (fold deliver evs a) = returned a"
  by (induction evs arbitrary: a) (simp_all add: settled_deliver)

text \<open>
  C10.  For every url, every delay and every order in which the event loop delivers the
  settlement of the fetch and the timer, the two functions leave their callers with the
  same promise: pending while nothing has happened, resolved with the response if the
  fetch is fulfilled first, rejected with the fetch's error if it is rejected first, and
  rejected with the string \<^verbatim>\<open>Request Timed Out\<close> if the timer fires first.  Both
  functions fetch the url they are given and set their timer for the delay they are
  given, so in every world the two promises end the same: with what the fetch of that
  url does if it settles before that delay has passed, and rejected with
  \<^verbatim>\<open>Request Timed Out\<close> otherwise.
\<close>

theorem fetchWithTimeout_equivalent:
  "observe evs (fetchWithTimeout url ms :: 'a timed_fetch) = observeClean evs (fetchWithTimeoutClean url ms :: 'a raced_fetch) \<and>
   observe [] (fetchWithTimeout url ms :: 'a timed_fetch) = Pending \<and>
   observe (FetchFulfils response # evs) (fetchWithTimeout url ms :: 'a timed_fetch) = Resolved response \<and>
   observe (FetchRejects error # evs) (fetchWithTimeout url ms :: 'a timed_fetch) = Rejected error \<and>
   observe (TimerFires # evs) (fetchWithTimeout url ms :: 'a timed_fetch) = Rejected (Str ''Request Timed Out'') \<and>
   request (fetchWithTimeout url ms :: 'a timed_fetch) = Some url \<and>
   timeoutId (fetchWithTimeout url ms :: 'a timed_fetch) = Some ms \<and>
   fetching (fetchWithTimeoutClean url ms :: 'a raced_fetch) = Some url \<and>
   timer (fetchWithTimeoutClean url ms :: 'a raced_fetch) = Some ms \<and>
   final w (fetchWithTimeout url ms :: 'a timed_fetch) = finalClean w (fetchWithTimeoutClean url ms :: 'a raced_fetch) \<and>
   final w (fetchWithTimeout url ms :: 'a timed_fetch) =
     (case respond w url of
        None \<Rightarrow> Rejected (Str ''Request Timed Out'')
      | Some (t, out) \<Rightarrow>
          if t < ms \<or> (t = ms \<and> fetch_first w) then verdict (Returns out)
          else Rejected (Str ''Request Timed Out''))"
proof -
  have eq: "observe evs (fetchWithTimeout url ms) = observeClean evs (fetchWithTimeoutClean url ms)"
    for evs :: "'a net_event list"
  proof -
    have "in_step (fold deliver evs (fetchWithTimeout url ms))
                  (fold deliverClean evs (fetchWithTimeoutClean url ms))"
      by (intro in_step_fold in_step_start)
    then show ?thesis by (simp add: observe_def observeClean_def in_step_def)
  qed
  have 2: "observe [] (fetchWithTimeout url ms :: 'a timed_fetch) = Pending"
    by (simp add: observe_def fetchWithTimeout_def)
  have first: "observe (ev # evs) (fetchWithTimeout url ms) = returned (deliver ev (fetchWithTimeout url ms))"
    if "returned (deliver ev (fetchWithTimeout url ms)) \<noteq> Pending"
    for ev :: "'a net_event" and evs
    using that by (simp add: observe_def settled_fold)
  have 3: "observe (FetchFulfils response # evs) (fetchWithTimeout url ms) = Resolved response"
    for response and evs :: "'a net_event list"
    by (subst first) (simp_all add: fetchWithTimeout_def resolving_def)
  have 4: "observe (FetchRejects error # evs) (fetchWithTimeout url ms) = Rejected error"
    for error and evs :: "'a net_event list"
    by (subst first) (simp_all add: fetchWithTimeout_def resolving_def)
  have 5: "observe (TimerFires # evs) (fetchWithTimeout url ms) = Rejected (Str ''Request Timed Out'')"
    for evs :: "'a net_event list"
    by (subst first) (simp_all add: fetchWithTimeout_def resolving_def)
  have 6: "request (fetchWithTimeout url ms :: 'a timed_fetch) = Some url"
    "timeoutId (fetchWithTimeout url ms :: 'a timed_fetch) = Some ms"
    by (simp_all add: fetchWithTimeout_def)
  have 7: "fetching (fetchWithTimeoutClean url ms :: 'a raced_fetch) = Some url"
    "timer (fetchWithTimeoutClean url ms :: 'a raced_fetch) = Some ms"
    by (simp_all add: fetchWithTimeoutClean_def)
  have f: "final w (fetchWithTimeout url ms) = observe (timeline w (Some url) (Some ms)) (fetchWithTimeout url ms)"
    by (simp add: final_def 6)
  have "finalClean w (fetchWithTimeoutClean url ms) =
          observeClean (timeline w (Some url) (Some ms)) (fetchWithTimeoutClean url ms)"
    by (simp add: finalClean_def 7)
  then have 8: "final w (fetchWithTimeout url ms) = finalClean w (fetchWithTimeoutClean url ms)"
    using f eq[of "timeline w (Some url) (Some ms)"] by simp
  have 9: "final w (fetchWithTimeout url ms) =
     (case respond w url of
        None \<Rightarrow> Rejected (Str ''Request Timed Out'')
      | Some (t, out) \<Rightarrow>
          if t < ms \<or> (t = ms \<and> fetch_first w) then verdict (Returns out)
          else Rejected (Str ''Request Timed Out''))"
  proof (cases "respond w url")
    case None
    then show ?thesis unfolding f by (simp add: timeline_def 5)
  next
    case (Some a)
    obtain t out where a: "a = (t, out)" by (cases a)
    show ?thesis
    proof (cases out)
      case (Fulfil response)
      then show ?thesis unfolding f using Some a by (simp add: timeline_def settlement_def 3 5)
    next
      case (Fail error)
      then show ?thesis unfolding f using Some a by (simp add: timeline_def settlement_def 4 5)
    qed
  qed
  from eq[of evs] 2 3[of response evs] 4[of error evs] 5[of evs] 6 7 8 9 show ?thesis by simp
qed

theorem fetchWithTimeout_equivalent_witness:
  "observeClean [FetchRejects (Str ''offline''), TimerFires, FetchFulfils (Other (3::nat))]
      (fetchWithTimeoutClean ''https://example.org/data'' 500) = Rejected (Str ''offline'') \<and>
   observeClean [TimerFires, FetchFulfils (Other (3::nat))]
      (fetchWithTimeoutClean ''https://example.org/data'' 500) = Rejected (Str ''Request Timed Out'') \<and>
   finalClean \<lparr>respond = (\<lambda>u. Some (120, Fulfil (Other (3::nat)))), fetch_first = True\<rparr>
      (fetchWithTimeoutClean ''https://example.org/data'' 500) = Resolved (Other 3) \<and>
   finalClean \<lparr>respond = (\<lambda>u. Some (120, Fulfil (Other (3::nat)))), fetch_first = True\<rparr>
      (fetchWithTimeoutClean ''https://example.org/data'' 100) = Rejected (Str ''Request Timed Out'')"
proof -
  let ?w = "\<lparr>respond = (\<lambda>u. Some (120, Fulfil (Other (3::nat)))), fetch_first = True\<rparr>"
  have A: "observeClean [FetchRejects (Str ''offline''), TimerFires, FetchFulfils (Other (3::nat))]
      (fetchWithTimeoutClean ''https://example.org/data'' 500) = Rejected (Str ''offline'') \<and>
   observeClean [TimerFires, FetchFulfils (Other (3::nat))]
      (fetchWithTimeoutClean ''https://example.org/data'' 500) = Rejected (Str ''Request Timed Out'')"
    using fetchWithTimeout_equivalent[of "[TimerFires, FetchFulfils (Other (3::nat))]"
            "''https://example.org/data''" 500 _ "Str ''offline''"]
          fetchWithTimeout_equivalent[of "[FetchFulfils (Other (3::nat))]"
            "''https://example.org/data''" 500]
          fetchWithTimeout_equivalent[of "[FetchRejects (Str ''offline''), TimerFires, FetchFulfils (Other (3::nat))]"
            "''https://example.org/data''" 500]
          fetchWithTimeout_equivalent[of "[TimerFires, FetchFulfils (Other (3::nat))]"
            "''https://example.org/data''" 500]
    by metis
  have B: "finalClean ?w (fetchWithTimeoutClean ''https://example.org/data'' 500) = Resolved (Other 3)"
    using fetchWithTimeout_equivalent[of "[]" "''https://example.org/data''" 500 "Other 0" "Other 0" ?w]
    by (elim conjE) simp
  have C: "finalClean ?w (fetchWithTimeoutClean ''https://example.org/data'' 100)
             = Rejected (Str ''Request Timed Out'')"
    using fetchWithTimeout_equivalent[of "[]" "''https://example.org/data''" 100 "Other 0" "Other 0" ?w]
    by (elim conjE) simp
  from A B C show ?thesis by simp
qed

section \<open>Priority order\<close>

lemma precedes_asym: "precedes a b \<Longrightarrow> \<not> precedes b a"
  by (auto simp: precedes_def)

lemma sorted_wrt_split:
  assumes "sorted_wrt R q" "a \<in> set q" "b \<in> set q" "R a b" "\<And>x y. R x y \<Longrightarrow> \<not> R y x"
  shows "\<exists>xs ys zs. q = xs @ a # ys @ b # zs"
proof -
  from assms(2) obtain xs rest where q: "q = xs @ a # rest" by (auto dest: split_list)
  have ab: "a \<noteq> b" using assms(4,5) by blast
  have "b \<notin> set xs"
  proof
    assume "b \<in> set xs"
    then have "R b a" using assms(1) q by (simp add: sorted_wrt_append)
    then show False using assms(4,5) by blast
  qed
  then have "b \<in> set rest" using assms(3) q ab by auto
  then obtain ys zs where "rest = ys @ b # zs" by (auto dest: split_list)
  then show ?thesis using q by blast
qed

lemma subseq_pair_in_prefix:
  assumes "subseq [x, y] (S @ Q)" "distinct (S @ Q)" "y \<in> set S"
  shows "\<exists>xs ys zs. S = xs @ x # ys @ y # zs"
proof -
  from assms(1) obtain us v vs where L: "S @ Q = us @ v # vs" and v: "x = v" and e: "subseq [y] vs"
    by (auto dest: list_emb_ConsD)
  have yv: "y \<in> set vs" using e by (simp add: subseq_singleton_left)
  from L consider w where "S = us @ w" "w @ Q = x # vs" | w where "S @ w = us" "Q = w @ x # vs"
    unfolding v by (auto simp: append_eq_append_conv2)
  then show ?thesis
  proof cases
    case 1
    show ?thesis
    proof (cases w)
      case Nil
      then have "y \<in> set Q" using 1(2) yv by auto
      then show ?thesis using assms(2,3) by auto
    next
      case (Cons w1 w')
      then have w: "w1 = x" "vs = w' @ Q" using 1(2) by simp_all
      have "y \<notin> set Q" using assms(2,3) by auto
      then have "y \<in> set w'" using yv w(2) by auto
      then obtain ys zs where "w' = ys @ y # zs" by (auto dest: split_list)
      then show ?thesis using 1(1) Cons w(1) by auto
    qed
  next
    case 2
    then have "y \<in> set Q" using yv by auto
    then show ?thesis using assms(2,3) by auto
  qed
qed

lemma schedule_process:
  "started (process s) @ map hid (queue (process s)) = started s @ map hid (queue s)"
  by (rule process_rule[where
        P = "\<lambda>s'. started s' @ map hid (queue s') = started s @ map hid (queue s)"])
     (auto simp: op_defs)

lemma ordered_process: "sorted_wrt precedes (queue s) \<Longrightarrow> sorted_wrt precedes (queue (process s))"
  by (rule process_rule[where P = "\<lambda>s'. sorted_wrt precedes (queue s')"]) (auto simp: op_defs)

lemma queue_enqueue:
  assumes "sorted_wrt precedes (queue s)"
  shows "queue (enqueue t p s) =
           takeWhile (\<lambda>x. p \<le> priority x) (queue s)
           @ \<lparr>task = t, priority = p, hid = length (promises s)\<rparr>
           # dropWhile (\<lambda>x. p \<le> priority x) (queue s)"
proof -
  have "sorted_wrt (\<lambda>a b. - priority a \<le> - priority b) (queue s)"
    using assms by (rule sorted_wrt_mono_rel[rotated]) (auto simp: precedes_def)
  then have "sorted (map (\<lambda>e. - priority e) (queue s))"
    by (simp add: sorted_map)
  then show ?thesis
    by (simp add: enqueue_def sort_key_snoc_sorted)
qed

lemma ordered_enqueue:
  assumes "consistent s" "sorted_wrt precedes (queue s)"
  shows "sorted_wrt precedes (queue (enqueue t p s))"
proof -
  let ?new = "\<lparr>task = t, priority = p, hid = length (promises s)\<rparr>"
  let ?A = "takeWhile (\<lambda>x. p \<le> priority x) (queue s)"
  let ?B = "dropWhile (\<lambda>x. p \<le> priority x) (queue s)"
  have q: "queue s = ?A @ ?B" by simp
  have AB: "sorted_wrt precedes (?A @ ?B)" using assms(2) by simp
  have hb: "\<forall>e\<in>set (queue s). hid e < length (promises s)"
    using assms(1) by (simp add: consistent_def)
  have "sorted_wrt (\<lambda>a b. - priority a \<le> - priority b) (queue s)"
    using assms(2) by (rule sorted_wrt_mono_rel[rotated]) (auto simp: precedes_def)
  then have sm: "sorted (map (\<lambda>e. - priority e) (queue s))" by (simp add: sorted_map)
  have A: "\<forall>a\<in>set ?A. precedes a ?new"
  proof
    fix a assume a: "a \<in> set ?A"
    then have "p \<le> priority a" by (auto dest: set_takeWhileD)
    moreover have "hid a < length (promises s)" using a hb by (auto dest: set_takeWhileD)
    ultimately show "precedes a ?new" by (auto simp: precedes_def)
  qed
  have B: "\<forall>b\<in>set ?B. precedes ?new b"
  proof
    fix b assume "b \<in> set ?B"
    then have "b \<in> set (dropWhile (\<lambda>x. - priority x \<le> - p) (queue s))" by simp
    with sm have "\<not> - priority b \<le> - p" by (rule dropWhile_sorted_fails)
    then show "precedes ?new b" by (simp add: precedes_def)
  qed
  have cross: "\<forall>a\<in>set ?A. \<forall>b\<in>set ?B. precedes a b"
    using AB unfolding sorted_wrt_append by blast
  have parts: "sorted_wrt precedes ?A" "sorted_wrt precedes ?B"
    using assms(2) by simp_all
  have "sorted_wrt precedes (?A @ ?new # ?B)"
    unfolding sorted_wrt_append using parts A B cross by simp
  then show ?thesis using queue_enqueue[OF assms(2)] by simp
qed

lemma ordered_step:
  assumes "consistent s" "sorted_wrt precedes (queue s)"
  shows "sorted_wrt precedes (queue (step e s))"
proof (cases e)
  case (Add t p)
  then show ?thesis using assms by (simp add: add_enqueue ordered_process ordered_enqueue)
next
  case (SetLimit n)
  then show ?thesis using assms(2) by (simp add: setLimit_def ordered_process)
next
  case (Complete h)
  have "sorted_wrt precedes (queue (finish h out s))" for out
    using assms(2) by (simp add: finish_def op_defs)
  then show ?thesis using Complete assms(2)
    by (simp add: resume_finish ordered_process split: option.splits)
qed

lemma ordered_exec:
  "consistent s \<Longrightarrow> sorted_wrt precedes (queue s) \<Longrightarrow> sorted_wrt precedes (queue (exec es s))"
  by (induction es arbitrary: s) (simp_all add: ordered_step consistent_step)

lemma ordered_run: "sorted_wrt precedes (queue (exec es (init c)))"
  by (rule ordered_exec) (simp_all add: consistent_init, simp add: init_def)

lemma schedule_step:
  assumes "sorted_wrt precedes (queue s)"
  shows "subseq (started s @ map hid (queue s)) (started (step e s) @ map hid (queue (step e s)))"
proof (cases e)
  case (Add t p)
  let ?new = "\<lparr>task = t, priority = p, hid = length (promises s)\<rparr>"
  let ?A = "takeWhile (\<lambda>x. p \<le> priority x) (queue s)"
  let ?B = "dropWhile (\<lambda>x. p \<le> priority x) (queue s)"
  have "subseq (map hid (?A @ ?B)) (map hid (?A @ ?new # ?B))"
    by (intro subseq_map list_emb_append_mono) auto
  then have "subseq (map hid (queue s)) (map hid (queue (enqueue t p s)))"
    using queue_enqueue[OF assms] by simp
  then have "subseq (started s @ map hid (queue s))
                    (started (enqueue t p s) @ map hid (queue (enqueue t p s)))"
    by (simp add: enqueue_def subseq_append')
  then show ?thesis using Add schedule_process[of "enqueue t p s"] by (simp add: add_enqueue)
next
  case (SetLimit n)
  then show ?thesis using schedule_process[of "s\<lparr>concurrency := n\<rparr>"] by (simp add: setLimit_def)
next
  case (Complete h)
  show ?thesis
  proof (cases "map_of (awaiting s) h")
    case None
    then show ?thesis using Complete by (simp add: resume_finish)
  next
    case (Some out)
    have "started (process (process (finish h out s))) @ map hid (queue (process (process (finish h out s))))
          = started (finish h out s) @ map hid (queue (finish h out s))"
      using schedule_process[of "finish h out s"] schedule_process[of "process (finish h out s)"]
      by simp
    then show ?thesis using Some Complete by (simp add: resume_finish) (simp add: finish_def op_defs)
  qed
qed

lemma schedule_exec:
  "consistent s \<Longrightarrow> sorted_wrt precedes (queue s) \<Longrightarrow>
   subseq (started s @ map hid (queue s)) (started (exec es s) @ map hid (queue (exec es s)))"
proof (induction es arbitrary: s)
  case Nil
  show ?case by simp
next
  case (Cons e es)
  have "subseq (started s @ map hid (queue s)) (started (step e s) @ map hid (queue (step e s)))"
    using Cons.prems(2) by (rule schedule_step)
  moreover have "subseq (started (step e s) @ map hid (queue (step e s)))
        (started (exec es (step e s)) @ map hid (queue (exec es (step e s))))"
    using Cons.prems by (intro Cons.IH consistent_step ordered_step)
  ultimately have "subseq (started s @ map hid (queue s))
        (started (exec es (step e s)) @ map hid (queue (exec es (step e s))))"
    by (rule subseq_order.trans)
  then show ?case by simp
qed

lemma submissions_append:
  "submissions (es @ [e]) = submissions es @ (case e of Add t p \<Rightarrow> [(t, p)] | _ \<Rightarrow> [])"
  by (induction es rule: submissions.induct) (auto split: event.splits)

lemma queue_process: "set (queue (process s)) \<subseteq> set (queue s)"
  by (rule process_rule[where P = "\<lambda>s'. set (queue s') \<subseteq> set (queue s)"]) (auto simp: op_defs)

lemma queue_step:
  "set (queue (step e s)) \<subseteq>
     (case e of Add t p \<Rightarrow> insert \<lparr>task = t, priority = p, hid = length (promises s)\<rparr> (set (queue s))
              | _ \<Rightarrow> set (queue s))"
proof (cases e)
  case (Add t p)
  have "set (queue (enqueue t p s)) = insert \<lparr>task = t, priority = p, hid = length (promises s)\<rparr> (set (queue s))"
    by (simp add: enqueue_def)
  then show ?thesis using Add queue_process[of "enqueue t p s"] by (simp add: add_enqueue)
next
  case (SetLimit n)
  then show ?thesis using queue_process[of "s\<lparr>concurrency := n\<rparr>"] by (simp add: setLimit_def)
next
  case (Complete h)
  show ?thesis
  proof (cases "map_of (awaiting s) h")
    case None
    then show ?thesis using Complete by (simp add: resume_finish)
  next
    case (Some out)
    have "queue (finish h out s) = queue s" by (simp add: finish_def op_defs)
    then have "set (queue (process (process (finish h out s)))) \<subseteq> set (queue s)"
      using queue_process[of "finish h out s"] queue_process[of "process (finish h out s)"]
      by (metis subset_trans)
    then show ?thesis using Some Complete by (simp add: resume_finish)
  qed
qed

lemma promises_length_step:
  "length (promises (step e s)) = (case e of Add t p \<Rightarrow> Suc (length (promises s)) | _ \<Rightarrow> length (promises s))"
proof (cases e)
  case (Add t p)
  then show ?thesis by (simp add: add_enqueue promises_length_process) (simp add: enqueue_def)
next
  case (SetLimit n)
  then show ?thesis by (simp add: setLimit_def promises_length_process)
next
  case (Complete h)
  have "length (promises (finish h out s)) = length (promises s)" for out
    by (simp add: finish_def op_defs)
  then show ?thesis using Complete
    by (simp add: resume_finish promises_length_process split: option.splits)
qed

lemma queue_as_submitted:
  "length (promises (exec es (init c))) = length (submissions es) \<and>
   (\<forall>e\<in>set (queue (exec es (init c))).
      hid e < length (submissions es) \<and> (task e, priority e) = submissions es ! hid e)"
proof (induction es rule: rev_induct)
  case Nil
  show ?case by (simp add: init_def)
next
  case (snoc x xs)
  let ?s = "exec xs (init c)"
  have len: "length (promises ?s) = length (submissions xs)"
    and old: "\<forall>e\<in>set (queue ?s). hid e < length (submissions xs) \<and>
                 (task e, priority e) = submissions xs ! hid e"
    using snoc.IH by simp_all
  have st: "exec (xs @ [x]) (init c) = step x ?s" by (simp add: exec_append)
  show ?case
  proof (cases x)
    case (Add t p)
    have sub: "submissions (xs @ [x]) = submissions xs @ [(t, p)]"
      using Add by (simp add: submissions_append)
    have l: "length (promises (step x ?s)) = Suc (length (submissions xs))"
      using Add len by (simp add: promises_length_step del: step.simps)
    have q: "set (queue (step x ?s)) \<subseteq>
             insert \<lparr>task = t, priority = p, hid = length (promises ?s)\<rparr> (set (queue ?s))"
      using queue_step[of x ?s] Add by simp
    have "hid e < length (submissions (xs @ [x])) \<and>
          (task e, priority e) = submissions (xs @ [x]) ! hid e"
      if "e \<in> set (queue (step x ?s))" for e
    proof (cases "e = \<lparr>task = t, priority = p, hid = length (promises ?s)\<rparr>")
      case True
      then show ?thesis using len by (simp add: sub nth_append)
    next
      case False
      then have "e \<in> set (queue ?s)" using that q by blast
      with old have "hid e < length (submissions xs)"
        "(task e, priority e) = submissions xs ! hid e" by blast+
      then show ?thesis by (simp add: sub nth_append)
    qed
    then show ?thesis unfolding st using l by (simp add: sub)
  next
    case (SetLimit n)
    have sub: "submissions (xs @ [x]) = submissions xs"
      using SetLimit by (simp add: submissions_append)
    have "set (queue (step x ?s)) \<subseteq> set (queue ?s)"
      using queue_step[of x ?s] SetLimit by simp
    moreover have "length (promises (step x ?s)) = length (promises ?s)"
      using SetLimit by (simp add: promises_length_step del: step.simps)
    ultimately show ?thesis unfolding st sub using len old by (simp add: subset_iff)
  next
    case (Complete h)
    have sub: "submissions (xs @ [x]) = submissions xs"
      using Complete by (simp add: submissions_append)
    have "set (queue (step x ?s)) \<subseteq> set (queue ?s)"
      using queue_step[of x ?s] Complete by simp
    moreover have "length (promises (step x ?s)) = length (promises ?s)"
      using Complete by (simp add: promises_length_step del: step.simps)
    ultimately show ?thesis unfolding st sub using len old by (simp add: subset_iff)
  qed
qed

lemma handles_process:
  "set (started (process s)) \<union> hid ` set (queue (process s)) = set (started s) \<union> hid ` set (queue s)"
proof -
  have "set (started (process s) @ map hid (queue (process s))) = set (started s @ map hid (queue s))"
    by (simp only: schedule_process)
  then show ?thesis by simp
qed

lemma handles_step:
  "set (started (step e s)) \<union> hid ` set (queue (step e s)) =
     (case e of Add t p \<Rightarrow> insert (length (promises s)) (set (started s) \<union> hid ` set (queue s))
              | _ \<Rightarrow> set (started s) \<union> hid ` set (queue s))"
proof (cases e)
  case (Add t p)
  have "set (started (enqueue t p s)) \<union> hid ` set (queue (enqueue t p s)) =
        insert (length (promises s)) (set (started s) \<union> hid ` set (queue s))"
    by (simp add: enqueue_def)
  then show ?thesis using Add handles_process[of "enqueue t p s"] by (simp add: add_enqueue)
next
  case (SetLimit n)
  then show ?thesis using handles_process[of "s\<lparr>concurrency := n\<rparr>"] by (simp add: setLimit_def)
next
  case (Complete h)
  show ?thesis
  proof (cases "map_of (awaiting s) h")
    case None
    then show ?thesis using Complete by (simp add: resume_finish)
  next
    case (Some out)
    have "set (started (finish h out s)) \<union> hid ` set (queue (finish h out s)) =
          set (started s) \<union> hid ` set (queue s)"
      by (simp add: finish_def op_defs)
    then have "set (started (process (process (finish h out s)))) \<union>
               hid ` set (queue (process (process (finish h out s)))) =
          set (started s) \<union> hid ` set (queue s)"
      using handles_process[of "finish h out s"] handles_process[of "process (finish h out s)"]
      by simp
    then show ?thesis using Some Complete by (simp add: resume_finish)
  qed
qed

lemma handles_run:
  "set (started (exec es (init c))) \<union> hid ` set (queue (exec es (init c))) = {..<length (submissions es)}"
proof (induction es rule: rev_induct)
  case Nil
  show ?case by (simp add: init_def)
next
  case (snoc x xs)
  let ?s = "exec xs (init c)"
  have len: "length (promises ?s) = length (submissions xs)"
    using queue_as_submitted[of xs c] by simp
  have st: "exec (xs @ [x]) (init c) = step x ?s" by (simp add: exec_append)
  show ?case
  proof (cases x)
    case (Add t p)
    have "set (started (step x ?s)) \<union> hid ` set (queue (step x ?s)) =
          insert (length (promises ?s)) (set (started ?s) \<union> hid ` set (queue ?s))"
      using handles_step[of x ?s] Add by simp
    then show ?thesis unfolding st using snoc.IH len Add
      by (simp add: submissions_append lessThan_Suc)
  next
    case (SetLimit n)
    have "set (started (step x ?s)) \<union> hid ` set (queue (step x ?s)) =
          set (started ?s) \<union> hid ` set (queue ?s)"
      using handles_step[of x ?s] SetLimit by simp
    then show ?thesis unfolding st using snoc.IH SetLimit by (simp add: submissions_append)
  next
    case (Complete h)
    have "set (started (step x ?s)) \<union> hid ` set (queue (step x ?s)) =
          set (started ?s) \<union> hid ` set (queue ?s)"
      using handles_step[of x ?s] Complete by simp
    then show ?thesis unfolding st using snoc.IH Complete by (simp add: submissions_append)
  qed
qed

text \<open>
  C3.  In every reachable state the queue is in the order "greater priority first, and
  among equal priorities the earlier submission first", so the record that
  \<^verbatim>\<open>process\<close> takes off the head is a greatest one, the earliest among its equals.  Of
  two records queued together, the one that goes first in that order is started first,
  whatever steps follow: a queued record with a smaller priority, or of the same priority
  and later submission, is never started before it.  A call of \<^verbatim>\<open>add\<close> takes nothing
  back: the list of starts and the list of running tasks are only extended.
  The priorities are the ones the callers gave.  The call number \<open>k\<close> of \<^verbatim>\<open>add\<close>
  returns the handle \<open>k\<close>, and the queued record of that handle carries the task and the
  priority of that call; every submission is either queued or has been started.  So of
  two submissions that are queued together, the one that was given the greater priority,
  or the same priority by an earlier call, is started first.
\<close>

theorem priority_order_respected:
  "sorted_wrt precedes (queue (exec es (init c))) \<and>
   (queue (exec es (init c)) = q # rest \<longrightarrow> (\<forall>r\<in>set rest. precedes q r)) \<and>
   (a \<in> set (queue (exec es (init c))) \<and> b \<in> set (queue (exec es (init c))) \<and> precedes a b \<and>
    hid b \<in> set (started (exec es' (exec es (init c)))) \<longrightarrow>
      (\<exists>xs ys zs. started (exec es' (exec es (init c))) = xs @ hid a # ys @ hid b # zs)) \<and>
   (\<exists>ys. started (step (Add t p) (exec es (init c))) = started (exec es (init c)) @ ys) \<and>
   (\<exists>ys. awaiting (step (Add t p) (exec es (init c))) = awaiting (exec es (init c)) @ ys) \<and>
   fst (add t p (exec es (init c))) = length (submissions es) \<and>
   (e \<in> set (queue (exec es (init c))) \<longrightarrow>
      hid e < length (submissions es) \<and>
      task e = fst (submissions es ! hid e) \<and> priority e = snd (submissions es ! hid e)) \<and>
   (i \<in> hid ` set (queue (exec es (init c))) \<and> j \<in> hid ` set (queue (exec es (init c))) \<and>
    (snd (submissions es ! j) < snd (submissions es ! i) \<or>
     snd (submissions es ! i) = snd (submissions es ! j) \<and> i < j) \<and>
    j \<in> set (started (exec es' (exec es (init c)))) \<longrightarrow>
      (\<exists>xs ys zs. started (exec es' (exec es (init c))) = xs @ i # ys @ j # zs)) \<and>
   (k < length (submissions es) \<longrightarrow>
      k \<in> set (started (exec es (init c))) \<or> k \<in> hid ` set (queue (exec es (init c))))"
proof -
  let ?s = "exec es (init c)"
  let ?s' = "exec es' ?s"
  have s: "consistent ?s" using sound_run by blast
  have o: "sorted_wrt precedes (queue ?s)" by (rule ordered_run)
  have 2: "\<forall>r\<in>set rest. precedes q r" if "queue ?s = q # rest"
    using o that by simp
  have 3: "\<exists>xs ys zs. started ?s' = xs @ hid a # ys @ hid b # zs"
    if a: "a \<in> set (queue ?s)" and b: "b \<in> set (queue ?s)" and ab: "precedes a b"
      and st: "hid b \<in> set (started ?s')" for a b
  proof -
    obtain xs ys zs where "queue ?s = xs @ a # ys @ b # zs"
      using sorted_wrt_split[OF o a b ab precedes_asym] by blast
    then have "map hid (queue ?s) = map hid xs @ hid a # map hid ys @ hid b # map hid zs"
      by simp
    then have "subseq [hid a, hid b] (map hid (queue ?s))"
      by (metis list_emb_append2 subseq_Cons2 list_emb_Nil)
    then have "subseq [hid a, hid b] (started ?s @ map hid (queue ?s))"
      by (rule list_emb_append2)
    moreover have "subseq (started ?s @ map hid (queue ?s)) (started ?s' @ map hid (queue ?s'))"
      using s o by (rule schedule_exec)
    ultimately have "subseq [hid a, hid b] (started ?s' @ map hid (queue ?s'))"
      by (rule subseq_order.trans)
    moreover have "consistent ?s'" using s by (rule consistent_exec)
    then have "distinct (started ?s' @ map hid (queue ?s'))" by (simp add: consistent_def)
    ultimately show ?thesis using st by (rule subseq_pair_in_prefix)
  qed
  have 4: "\<exists>ys. started (step (Add t p) ?s) = started ?s @ ys"
    using started_step[of ?s "Add t p"] by (auto simp: prefix_def)
  have "awaiting (enqueue t p ?s) = awaiting ?s" by (simp add: enqueue_def)
  then have "prefix (awaiting ?s) (awaiting (step (Add t p) ?s))"
    using awaiting_process[of "enqueue t p ?s"] by (simp add: add_enqueue)
  then have 5: "\<exists>ys. awaiting (step (Add t p) ?s) = awaiting ?s @ ys"
    by (auto simp: prefix_def)
  have led: "length (promises ?s) = length (submissions es)"
    and rec: "\<forall>e\<in>set (queue ?s). hid e < length (submissions es) \<and>
                 (task e, priority e) = submissions es ! hid e"
    using queue_as_submitted[of es c] by simp_all
  have 6: "fst (add t p ?s) = length (submissions es)"
    using led by (simp add: add_enqueue)
  have 7: "hid e < length (submissions es) \<and>
      task e = fst (submissions es ! hid e) \<and> priority e = snd (submissions es ! hid e)"
    if "e \<in> set (queue ?s)" for e
  proof -
    from rec that have "hid e < length (submissions es)"
      "(task e, priority e) = submissions es ! hid e" by blast+
    then show ?thesis by (metis fst_conv snd_conv)
  qed
  have 8: "\<exists>xs ys zs. started ?s' = xs @ i # ys @ j # zs"
    if i: "i \<in> hid ` set (queue ?s)" and j: "j \<in> hid ` set (queue ?s)"
      and gt: "snd (submissions es ! j) < snd (submissions es ! i) \<or>
               snd (submissions es ! i) = snd (submissions es ! j) \<and> i < j"
      and st: "j \<in> set (started ?s')" for i j
  proof -
    from i obtain a where a: "a \<in> set (queue ?s)" "hid a = i" by auto
    from j obtain b where b: "b \<in> set (queue ?s)" "hid b = j" by auto
    have "priority a = snd (submissions es ! i)" "priority b = snd (submissions es ! j)"
      using 7[OF a(1)] 7[OF b(1)] a(2) b(2) by simp_all
    then have "precedes a b" using gt a(2) b(2) by (simp add: precedes_def)
    then show ?thesis using 3[of a b] a b st by simp
  qed
  have A: "sorted_wrt precedes (queue ?s) \<and>
     (queue ?s = q # rest \<longrightarrow> (\<forall>r\<in>set rest. precedes q r)) \<and>
     (a \<in> set (queue ?s) \<and> b \<in> set (queue ?s) \<and> precedes a b \<and> hid b \<in> set (started ?s') \<longrightarrow>
        (\<exists>xs ys zs. started ?s' = xs @ hid a # ys @ hid b # zs)) \<and>
     (\<exists>ys. started (step (Add t p) ?s) = started ?s @ ys) \<and>
     (\<exists>ys. awaiting (step (Add t p) ?s) = awaiting ?s @ ys)"
    using o 2 3 4 5 by blast
  have B: "fst (add t p ?s) = length (submissions es) \<and>
     (e \<in> set (queue ?s) \<longrightarrow>
        hid e < length (submissions es) \<and>
        task e = fst (submissions es ! hid e) \<and> priority e = snd (submissions es ! hid e)) \<and>
     (i \<in> hid ` set (queue ?s) \<and> j \<in> hid ` set (queue ?s) \<and>
      (snd (submissions es ! j) < snd (submissions es ! i) \<or>
       snd (submissions es ! i) = snd (submissions es ! j) \<and> i < j) \<and>
      j \<in> set (started ?s') \<longrightarrow>
        (\<exists>xs ys zs. started ?s' = xs @ i # ys @ j # zs))"
    using 6 7[of e] 8[of i j] by blast
  have C: "k < length (submissions es) \<longrightarrow>
      k \<in> set (started ?s) \<or> k \<in> hid ` set (queue ?s)"
    using handles_run[of es c] by (metis UnE lessThan_iff)
  from A B C show ?thesis by simp
qed

theorem priority_order_respected_witness:
  "(\<exists>xs ys zs. started (exec [Complete 0, Complete 2, Complete 1]
        (exec [Add (Returns (Fulfil ''A'')) 0, Add (Returns (Fulfil ''B'')) 0,
               Add (Returns (Fulfil ''C'')) 5, Add (Returns (Fulfil ''D'')) 0] (init 1) :: string state))
      = xs @ 2 # ys @ 1 # zs) \<and>
   (\<exists>xs ys zs. started (exec [Complete 0, Complete 2, Complete 1]
        (exec [Add (Returns (Fulfil ''A'')) 0, Add (Returns (Fulfil ''B'')) 0,
               Add (Returns (Fulfil ''C'')) 5, Add (Returns (Fulfil ''D'')) 0] (init 1) :: string state))
      = xs @ 1 # ys @ 3 # zs) \<and>
   precedes \<lparr>task = Returns (Fulfil ''C''), priority = 5, hid = 2\<rparr>
            (\<lparr>task = Returns (Fulfil ''B''), priority = 0, hid = 1\<rparr> :: string entry) \<and>
   precedes \<lparr>task = Returns (Fulfil ''C''), priority = 5, hid = 2\<rparr>
            (\<lparr>task = Returns (Fulfil ''D''), priority = 0, hid = 3\<rparr> :: string entry) \<and>
   (\<exists>xs ys zs. started (exec [Complete 0, Complete 2]
        (exec [Add (Returns (Fulfil ''A'')) 0, Add (Returns (Fulfil ''low'')) 5,
               Add (Returns (Fulfil ''high'')) 9] (init 1) :: string state))
      = xs @ 2 # ys @ 1 # zs) \<and>
   priority (hd (queue (exec [Add (Returns (Fulfil ''A'')) 0, Add (Returns (Fulfil ''low'')) 5,
               Add (Returns (Fulfil ''high'')) 9] (init 1) :: string state))) = 9"
proof -
  let ?es = "[Add (Returns (Fulfil ''A'')) 0, Add (Returns (Fulfil ''B'')) 0,
              Add (Returns (Fulfil ''C'')) 5, Add (Returns (Fulfil ''D'')) 0] :: string event list"
  let ?es' = "[Complete 0, Complete 2, Complete 1] :: string event list"
  let ?B = "\<lparr>task = Returns (Fulfil ''B''), priority = 0, hid = 1\<rparr> :: string entry"
  let ?C = "\<lparr>task = Returns (Fulfil ''C''), priority = 5, hid = 2\<rparr> :: string entry"
  let ?D = "\<lparr>task = Returns (Fulfil ''D''), priority = 0, hid = 3\<rparr> :: string entry"
  have q: "queue (exec ?es (init 1)) = [?C, ?B, ?D]" by code_simp
  have st: "started (exec ?es' (exec ?es (init 1))) = [0, 2, 1, 3]" by code_simp
  have mem: "?B \<in> set (queue (exec ?es (init 1)))" "?C \<in> set (queue (exec ?es (init 1)))"
    "?D \<in> set (queue (exec ?es (init 1)))"
    unfolding q by simp_all
  have pr: "precedes ?C ?B" "precedes ?B ?D" by (simp_all add: precedes_def)
  have hb: "hid ?B \<in> set (started (exec ?es' (exec ?es (init 1))))"
    "hid ?D \<in> set (started (exec ?es' (exec ?es (init 1))))"
    unfolding st by simp_all
  have "\<exists>xs ys zs. started (exec ?es' (exec ?es (init 1))) = xs @ hid ?C # ys @ hid ?B # zs"
    using priority_order_respected[of ?es 1 _ _ ?C ?B ?es'] mem pr hb by blast
  moreover
  have "\<exists>xs ys zs. started (exec ?es' (exec ?es (init 1))) = xs @ hid ?B # ys @ hid ?D # zs"
    using priority_order_respected[of ?es 1 _ _ ?B ?D ?es'] mem pr hb by blast
  moreover
  have "\<forall>r\<in>set [?B, ?D]. precedes ?C r"
    using priority_order_respected[of ?es 1 ?C "[?B, ?D]"] q by blast
  then have "precedes ?C ?B \<and> precedes ?C ?D" by simp
  moreover
  let ?fs = "[Add (Returns (Fulfil ''A'')) 0, Add (Returns (Fulfil ''low'')) 5,
              Add (Returns (Fulfil ''high'')) 9] :: string event list"
  let ?fs' = "[Complete 0, Complete 2] :: string event list"
  let ?H = "\<lparr>task = Returns (Fulfil ''high''), priority = 9, hid = 2\<rparr> :: string entry"
  let ?L = "\<lparr>task = Returns (Fulfil ''low''), priority = 5, hid = 1\<rparr> :: string entry"
  have q2: "queue (exec ?fs (init 1)) = [?H, ?L]" by code_simp
  have st2: "started (exec ?fs' (exec ?fs (init 1))) = [0, 2, 1]" by code_simp
  have in2: "(2::nat) \<in> hid ` set (queue (exec ?fs (init 1)))"
    "(1::nat) \<in> hid ` set (queue (exec ?fs (init 1)))"
    unfolding q2 by simp_all
  have gt: "snd (submissions ?fs ! 1) < snd (submissions ?fs ! 2)" by simp
  have j2: "(1::nat) \<in> set (started (exec ?fs' (exec ?fs (init 1))))" unfolding st2 by simp
  note T = priority_order_respected[of ?fs 1 _ _ _ _ ?fs' _ _ ?H 2 1]
  have "\<exists>xs ys zs. started (exec ?fs' (exec ?fs (init 1))) = xs @ 2 # ys @ 1 # zs"
    using T in2 gt j2 by blast
  moreover
  have "?H \<in> set (queue (exec ?fs (init 1)))" unfolding q2 by simp
  then have "priority ?H = snd (submissions ?fs ! hid ?H)" using T by blast
  then have "priority (hd (queue (exec ?fs (init 1)))) = 9" unfolding q2 by simp
  ultimately show ?thesis by (simp del: exec.simps)
qed

section \<open>After a failure\<close>

text \<open>
  C5.  In a reachable state, when the promise awaited for a running task is rejected with
  \<open>err\<close>, the completion rejects the task's handle with \<open>err\<close>; if a record is
  queued and the freed slot is within the limit, the first queued record is started in the
  same step.  A task that throws \<open>err\<close> when called has its handle rejected with
  \<open>err\<close> as soon as it has been started, and the record queued behind it is started
  in the same call of \<^verbatim>\<open>process\<close>: so it is after \<^verbatim>\<open>setLimit\<close> and after a
  completion that find a throwing task at the head of the queue, and after an \<^verbatim>\<open>add\<close>
  that puts one there.  No step raises: the failure of a task reaches the handle only.
\<close>

theorem failure_relayed:
  "((h, Fail err) \<in> set (awaiting (exec es (init c))) \<longrightarrow>
      promises (step (Complete h) (exec es (init c))) ! h = Rejected err \<and>
      (queue (exec es (init c)) = q # rest \<and>
       running (exec es (init c)) - 1 < concurrency (exec es (init c)) \<longrightarrow>
         hid q \<in> set (started (step (Complete h) (exec es (init c)))))) \<and>
   (k \<in> set (started (exec es (init c))) \<and> submitted (exec es (init c)) ! k = Throws err \<longrightarrow>
      promises (exec es (init c)) ! k = Rejected err) \<and>
   \<not> crashed (step e (exec es (init c))) \<and>
   (running s < concurrency s \<and> queue s = x # y # others \<and> task x = Throws err \<longrightarrow>
      hid x \<in> set (started (process s)) \<and> hid y \<in> set (started (process s))) \<and>
   (queue (exec es (init c)) = x # y # others \<and> task x = Throws err \<and>
    running (exec es (init c)) < n \<longrightarrow>
      promises (step (SetLimit n) (exec es (init c))) ! hid x = Rejected err \<and>
      hid y \<in> set (started (step (SetLimit n) (exec es (init c))))) \<and>
   ((g, out) \<in> set (awaiting (exec es (init c))) \<and>
    queue (exec es (init c)) = x # y # others \<and> task x = Throws err \<and>
    running (exec es (init c)) - 1 < concurrency (exec es (init c)) \<longrightarrow>
      promises (step (Complete g) (exec es (init c))) ! hid x = Rejected err \<and>
      hid y \<in> set (started (step (Complete g) (exec es (init c))))) \<and>
   (queue (exec es (init c)) = y # others \<and> priority y < p \<and>
    running (exec es (init c)) < concurrency (exec es (init c)) \<longrightarrow>
      promises (step (Add (Throws err) p) (exec es (init c))) ! fst (add (Throws err) p (exec es (init c)))
        = Rejected err \<and>
      hid y \<in> set (started (step (Add (Throws err) p) (exec es (init c)))))"
proof -
  let ?s = "exec es (init c)"
  have s: "consistent ?s" "accounted ?s" using sound_run[of es c] by simp_all
  have after: "consistent (step e ?s)" "accounted (step e ?s)" for e
    using sound_step[of ?s e] s by simp_all
  have 1: "promises (step (Complete h) ?s) ! h = Rejected err"
    if "(h, Fail err) \<in> set (awaiting ?s)"
    using completion_settles[OF s that] by simp
  have 2: "hid q \<in> set (started (step (Complete h) ?s))"
    if a: "(h, Fail err) \<in> set (awaiting ?s)" and q: "queue ?s = q # rest"
      and r: "running ?s - 1 < concurrency ?s"
  proof -
    have "distinct (map fst (awaiting ?s))" using s(1) by (simp add: consistent_def)
    then have m: "map_of (awaiting ?s) h = Some (Fail err)" using a by simp
    let ?f = "finish h (Fail err) ?s"
    have "running ?f < concurrency ?f" "queue ?f = q # rest"
      using q r by (simp_all add: finish_def op_defs)
    then have "hid q \<in> set (started (process ?f))" by (rule process_starts_head)
    then have "hid q \<in> set (started (process (process ?f)))"
      using started_process[of "process ?f"] by (auto dest: set_mono_prefix)
    then show ?thesis using m by (simp add: resume_finish)
  qed
  have 3: "promises ?s ! k = Rejected err"
    if "k \<in> set (started ?s)" "submitted ?s ! k = Throws err"
    using s that by (rule thrower_rejected)
  have 4: "\<not> crashed (step e ?s)" using s(1) by (rule crashed_step)
  have 5: "hid x \<in> set (started (process s)) \<and> hid y \<in> set (started (process s))"
    if "running s < concurrency s" "queue s = x # y # others" "task x = Throws err"
    using that by (rule process_after_throw)
  have 6: "promises (step (SetLimit n) ?s) ! hid x = Rejected err \<and>
           hid y \<in> set (started (step (SetLimit n) ?s))"
    if q: "queue ?s = x # y # others" and t: "task x = Throws err" and r: "running ?s < n"
  proof -
    let ?l = "?s\<lparr>concurrency := n\<rparr>"
    have st: "step (SetLimit n) ?s = process ?l" by (simp add: setLimit_def)
    have "running ?l < concurrency ?l" "queue ?l = x # y # others" using q r by simp_all
    then have in_started: "hid x \<in> set (started (process ?l)) \<and> hid y \<in> set (started (process ?l))"
      using t by (rule process_after_throw)
    have sub: "submitted (step (SetLimit n) ?s) = submitted ?s"
      unfolding st by (simp add: submitted_process)
    have "promises (step (SetLimit n) ?s) ! hid x = Rejected err"
      using s q t after[of "SetLimit n"] sub in_started unfolding st[symmetric]
      by (intro thrower_in_step) simp_all
    then show ?thesis using in_started unfolding st by simp
  qed
  have 7: "promises (step (Complete g) ?s) ! hid x = Rejected err \<and>
           hid y \<in> set (started (step (Complete g) ?s))"
    if a: "(g, out) \<in> set (awaiting ?s)" and q: "queue ?s = x # y # others"
      and t: "task x = Throws err" and r: "running ?s - 1 < concurrency ?s"
  proof -
    have "distinct (map fst (awaiting ?s))" using s(1) by (simp add: consistent_def)
    then have m: "map_of (awaiting ?s) g = Some out" using a by simp
    let ?f = "finish g out ?s"
    have st: "step (Complete g) ?s = process (process ?f)" using m by (simp add: resume_finish)
    have "running ?f < concurrency ?f" "queue ?f = x # y # others"
      using q r by (simp_all add: finish_def op_defs)
    then have "hid x \<in> set (started (process ?f)) \<and> hid y \<in> set (started (process ?f))"
      using t by (rule process_after_throw)
    then have in_started: "hid x \<in> set (started (process (process ?f))) \<and>
                           hid y \<in> set (started (process (process ?f)))"
      using started_process[of "process ?f"] by (auto dest: set_mono_prefix)
    have sub: "submitted (step (Complete g) ?s) = submitted ?s"
      unfolding st by (simp add: submitted_process) (simp add: finish_def op_defs)
    have "promises (step (Complete g) ?s) ! hid x = Rejected err"
      using s q t after[of "Complete g"] sub in_started unfolding st[symmetric]
      by (intro thrower_in_step) simp_all
    then show ?thesis using in_started unfolding st by simp
  qed
  have A: "((h, Fail err) \<in> set (awaiting ?s) \<longrightarrow>
      promises (step (Complete h) ?s) ! h = Rejected err \<and>
      (queue ?s = q # rest \<and> running ?s - 1 < concurrency ?s \<longrightarrow>
         hid q \<in> set (started (step (Complete h) ?s)))) \<and>
   (k \<in> set (started ?s) \<and> submitted ?s ! k = Throws err \<longrightarrow> promises ?s ! k = Rejected err) \<and>
   \<not> crashed (step e ?s)"
    using 1 2 3 4 by blast
  have B: "(running s < concurrency s \<and> queue s = x # y # others \<and> task x = Throws err \<longrightarrow>
      hid x \<in> set (started (process s)) \<and> hid y \<in> set (started (process s))) \<and>
   (queue ?s = x # y # others \<and> task x = Throws err \<and> running ?s < n \<longrightarrow>
      promises (step (SetLimit n) ?s) ! hid x = Rejected err \<and>
      hid y \<in> set (started (step (SetLimit n) ?s))) \<and>
   ((g, out) \<in> set (awaiting ?s) \<and> queue ?s = x # y # others \<and> task x = Throws err \<and>
    running ?s - 1 < concurrency ?s \<longrightarrow>
      promises (step (Complete g) ?s) ! hid x = Rejected err \<and>
      hid y \<in> set (started (step (Complete g) ?s)))"
    using 5 6 7 by blast
  have 8: "promises (step (Add (Throws err) p) ?s) ! fst (add (Throws err) p ?s) = Rejected err \<and>
           hid y \<in> set (started (step (Add (Throws err) p) ?s))"
    if q: "queue ?s = y # others" and py: "priority y < p" and r: "running ?s < concurrency ?s"
  proof -
    let ?h = "length (promises ?s)"
    let ?new = "\<lparr>task = Throws err, priority = p, hid = ?h\<rparr>"
    let ?a = "enqueue (Throws err) p ?s"
    have st: "step (Add (Throws err) p) ?s = process ?a" by (simp add: add_enqueue)
    have "sorted_wrt precedes (queue ?s)" by (rule ordered_run)
    then have "queue ?a = takeWhile (\<lambda>x. p \<le> priority x) (queue ?s) @ ?new
                 # dropWhile (\<lambda>x. p \<le> priority x) (queue ?s)"
      by (rule queue_enqueue)
    then have qa: "queue ?a = ?new # y # others" using q py by simp
    have "running ?a < concurrency ?a" using r by (simp add: enqueue_def)
    moreover have "task ?new = Throws err" by simp
    ultimately have in_started: "hid ?new \<in> set (started (process ?a)) \<and>
                                 hid y \<in> set (started (process ?a))"
      using qa by (intro process_after_throw) simp_all
    have "length (submitted ?s) = length (promises ?s)" using s(1) by (simp add: consistent_def)
    then have "(submitted ?s @ [Throws err]) ! ?h = Throws err" by (metis nth_append_length)
    then have "submitted (process ?a) ! ?h = Throws err"
      by (simp add: submitted_process) (simp add: enqueue_def)
    moreover have "consistent (process ?a)" "accounted (process ?a)"
      using after[of "Add (Throws err) p"] unfolding st by simp_all
    moreover have "?h \<in> set (started (process ?a))" using in_started by simp
    ultimately have "promises (process ?a) ! ?h = Rejected err"
      by (intro thrower_rejected) simp_all
    then show ?thesis using in_started unfolding st by (simp add: add_enqueue)
  qed
  from A B 8 show ?thesis by simp
qed

theorem failure_relayed_witness:
  "promises (step (Complete 0)
      (exec [Add (Returns (Fail ''X'')) 0, Add (Returns (Fulfil ''next'')) 0] (init 1) :: string state))
      ! 0 = Rejected ''X'' \<and>
   1 \<in> set (started (step (Complete 0)
      (exec [Add (Returns (Fail ''X'')) 0, Add (Returns (Fulfil ''next'')) 0] (init 1) :: string state))) \<and>
   promises (exec [Add (Throws ''X'') 0] (init 1) :: string state) ! 0 = Rejected ''X'' \<and>
   promises (step (Complete 0)
      (exec [Add (Returns (Fulfil ''first'')) 0, Add (Throws ''X'') 0, Add (Returns (Fulfil ''next'')) 0]
         (init 1) :: string state)) ! 1 = Rejected ''X'' \<and>
   2 \<in> set (started (step (Complete 0)
      (exec [Add (Returns (Fulfil ''first'')) 0, Add (Throws ''X'') 0, Add (Returns (Fulfil ''next'')) 0]
         (init 1) :: string state))) \<and>
   promises (step (SetLimit 1)
      (exec [Add (Throws ''X'') 0, Add (Returns (Fulfil ''next'')) 0] (init 0) :: string state))
      ! 0 = Rejected ''X'' \<and>
   1 \<in> set (started (step (SetLimit 1)
      (exec [Add (Throws ''X'') 0, Add (Returns (Fulfil ''next'')) 0] (init 0) :: string state))) \<and>
   promises (step (Add (Throws ''X'') 9)
      (exec [Add (Returns (Fulfil ''a'')) 0, Add (Returns (Fulfil ''b'')) 0,
             Add (Returns (Fulfil ''next'')) 0, SetLimit 3] (init 1) :: string state)) ! 3
      = Rejected ''X'' \<and>
   2 \<in> set (started (step (Add (Throws ''X'') 9)
      (exec [Add (Returns (Fulfil ''a'')) 0, Add (Returns (Fulfil ''b'')) 0,
             Add (Returns (Fulfil ''next'')) 0, SetLimit 3] (init 1) :: string state)))"
proof -
  let ?es = "[Add (Returns (Fail ''X'')) 0, Add (Returns (Fulfil ''next'')) 0] :: string event list"
  let ?q = "\<lparr>task = Returns (Fulfil ''next''), priority = 0, hid = 1\<rparr> :: string entry"
  note T = failure_relayed[of 0 "''X''" ?es 1 ?q "[]"]
  have a: "(0, Fail ''X'') \<in> set (awaiting (exec ?es (init 1)))" by code_simp
  have q: "queue (exec ?es (init 1)) = [?q]" by code_simp
  have r: "running (exec ?es (init 1)) - 1 < concurrency (exec ?es (init 1))" by code_simp
  have "promises (step (Complete 0) (exec ?es (init 1))) ! 0 = Rejected ''X'' \<and>
        hid ?q \<in> set (started (step (Complete 0) (exec ?es (init 1))))"
    using T a q r by blast
  moreover
  have k: "0 \<in> set (started (exec [Add (Throws ''X'') 0] (init 1) :: string state))" by code_simp
  have t: "submitted (exec [Add (Throws ''X'') 0] (init 1) :: string state) ! 0 = Throws ''X''"
    by code_simp
  have "promises (exec [Add (Throws ''X'') 0] (init 1) :: string state) ! 0 = Rejected ''X''"
    using failure_relayed[of _ "''X''" "[Add (Throws ''X'') 0]" 1 _ _ 0] k t by blast
  moreover
  let ?fs = "[Add (Returns (Fulfil ''first'')) 0, Add (Throws ''X'') 0,
              Add (Returns (Fulfil ''next'')) 0] :: string event list"
  let ?x = "\<lparr>task = Throws ''X'', priority = 0, hid = 1\<rparr> :: string entry"
  let ?y = "\<lparr>task = Returns (Fulfil ''next''), priority = 0, hid = 2\<rparr> :: string entry"
  have a2: "(0, Fulfil ''first'') \<in> set (awaiting (exec ?fs (init 1)))" by code_simp
  have q2: "queue (exec ?fs (init 1)) = [?x, ?y]" by code_simp
  have r2: "running (exec ?fs (init 1)) - 1 < concurrency (exec ?fs (init 1))" by code_simp
  have tx: "task ?x = Throws ''X''" by simp
  have "promises (step (Complete 0) (exec ?fs (init 1))) ! hid ?x = Rejected ''X'' \<and>
        hid ?y \<in> set (started (step (Complete 0) (exec ?fs (init 1))))"
    using failure_relayed[of _ "''X''" ?fs 1 _ _ _ _ _ ?x ?y "[]" _ 0 "Fulfil ''first''"]
      a2 q2 r2 tx by blast
  moreover
  let ?gs = "[Add (Throws ''X'') 0, Add (Returns (Fulfil ''next'')) 0] :: string event list"
  let ?x3 = "\<lparr>task = Throws ''X'', priority = 0, hid = 0\<rparr> :: string entry"
  let ?y3 = "\<lparr>task = Returns (Fulfil ''next''), priority = 0, hid = 1\<rparr> :: string entry"
  have q3: "queue (exec ?gs (init 0)) = [?x3, ?y3]" by code_simp
  have r3: "running (exec ?gs (init 0)) < 1" by code_simp
  have tx3: "task ?x3 = Throws ''X''" by simp
  have "promises (step (SetLimit 1) (exec ?gs (init 0))) ! hid ?x3 = Rejected ''X'' \<and>
        hid ?y3 \<in> set (started (step (SetLimit 1) (exec ?gs (init 0))))"
    using failure_relayed[of _ "''X''" ?gs 0 _ _ _ _ _ ?x3 ?y3 "[]" 1] q3 r3 tx3 by blast
  moreover
  let ?hs = "[Add (Returns (Fulfil ''a'')) 0, Add (Returns (Fulfil ''b'')) 0,
              Add (Returns (Fulfil ''next'')) 0, SetLimit 3] :: string event list"
  let ?y4 = "\<lparr>task = Returns (Fulfil ''next''), priority = 0, hid = 2\<rparr> :: string entry"
  have q4: "queue (exec ?hs (init 1)) = [?y4]" by code_simp
  have r4: "running (exec ?hs (init 1)) < concurrency (exec ?hs (init 1))" by code_simp
  have p4: "priority ?y4 < 9" by simp
  have h4: "fst (add (Throws ''X'') 9 (exec ?hs (init 1))) = 3" by code_simp
  have "promises (step (Add (Throws ''X'') 9) (exec ?hs (init 1)))
          ! fst (add (Throws ''X'') 9 (exec ?hs (init 1))) = Rejected ''X'' \<and>
        hid ?y4 \<in> set (started (step (Add (Throws ''X'') 9) (exec ?hs (init 1))))"
    using failure_relayed[of _ "''X''" ?hs 1 _ _ _ _ _ _ ?y4 "[]" _ _ _ 9] q4 r4 p4 by blast
  then have "promises (step (Add (Throws ''X'') 9) (exec ?hs (init 1))) ! 3 = Rejected ''X'' \<and>
        hid ?y4 \<in> set (started (step (Add (Throws ''X'') 9) (exec ?hs (init 1))))"
    unfolding h4 .
  ultimately show ?thesis by (simp del: exec.simps step.simps)
qed

end
